theory Spec2Isabelle
  imports Main "HOL-Library.Multiset"
begin

section \<open>Multi-function procedures: data model\<close>

text \<open>
  A shallow embedding of \<^verbatim>\<open>source/blender/functions/intern/multi_function_procedure.cc\<close>.

  The procedure owns an arena (\<^verbatim>\<open>allocator_\<close>) in which every variable and every
  instruction lives until the procedure is dropped. A pointer to an instruction is the
  index of its cell in the instruction arena, a pointer to a variable the index of its
  cell in the variable arena, and \<^verbatim>\<open>nullptr\<close> is \<open>None\<close>. Cells are never freed, so an
  index that is in range stays valid. Dereferencing an index that is out of range, a null
  pointer, or a cell of the wrong class is undefined behaviour in C++; every function of
  the model that dereferences returns an \<open>option\<close> and is \<open>None\<close> there. A failing
  \<^verbatim>\<open>BLI_assert\<close> is \<open>None\<close> as well.

  A name of Isabelle cannot end with an underscore, so the members keep their names
  without it (\<^verbatim>\<open>prev_\<close> is \<open>prev\<close>, \<^verbatim>\<open>users_\<close> is \<open>users\<close>, \<^verbatim>\<open>entry_\<close> is \<open>entry\<close>,
  \<^verbatim>\<open>params_\<close> is \<open>params\<close>); \<^verbatim>\<open>data_type_\<close>, \<^verbatim>\<open>name_\<close> and \<^verbatim>\<open>id_\<close> of a variable are
  \<open>var_data_type\<close>, \<open>var_name\<close> and \<open>var_id\<close>.
\<close>

type_synonym instr_ptr = nat
type_synonym var_ptr = nat

text \<open>\<^verbatim>\<open>MFDataType\<close> is an opaque handle with decidable equality.\<close>

type_synonym MFDataType = nat

datatype InterfaceType = Input | Mutable | Output

record MFParamType =
  interface_type :: InterfaceType
  data_type :: MFDataType

text \<open>
  \<^verbatim>\<open>MultiFunction\<close> is declared outside this file; the procedure reads its name, its
  parameter count, the range of its parameter indices and the type of each parameter.
\<close>

record MultiFunction =
  fn_name :: string
  param_types :: "MFParamType list"

definition param_amount :: "MultiFunction \<Rightarrow> nat" where
  "param_amount fn = length (param_types fn)"

definition param_indices :: "MultiFunction \<Rightarrow> nat list" where
  "param_indices fn = [0..<param_amount fn]"

text \<open>Only called with an index taken from \<open>param_indices\<close>.\<close>

definition param_type :: "MultiFunction \<Rightarrow> nat \<Rightarrow> MFParamType" where
  "param_type fn i = param_types fn ! i"

record MFVariable =
  var_data_type :: MFDataType
  users :: "instr_ptr list"
  var_name :: string
  var_id :: nat

datatype MFInstructionType = Call | Branch | Destruct | Dummy | Return

text \<open>
  The five instruction classes derive from \<^verbatim>\<open>MFInstruction\<close>, which holds the type tag and
  the \<^verbatim>\<open>prev_\<close> vector. The record below is the base class; \<open>derived\<close> holds the fields
  of the derived class, and the tag \<^verbatim>\<open>type_\<close> (\<open>instr_type\<close>) is the constructor of
  \<open>derived\<close> (each \<^verbatim>\<open>new_*_instruction\<close> sets the tag of the class it constructs).
\<close>

datatype MFDerived =
    MFCallInstruction MultiFunction "instr_ptr option" "var_ptr option list"
  | MFBranchInstruction "var_ptr option" "instr_ptr option" "instr_ptr option"
  | MFDestructInstruction "var_ptr option" "instr_ptr option"
  | MFDummyInstruction "instr_ptr option"
  | MFReturnInstruction

record MFInstruction =
  prev :: "instr_ptr list"
  derived :: MFDerived

fun type_of_derived :: "MFDerived \<Rightarrow> MFInstructionType" where
  "type_of_derived (MFCallInstruction fn nxt ps) = Call"
| "type_of_derived (MFBranchInstruction c bt bf) = Branch"
| "type_of_derived (MFDestructInstruction v nxt) = Destruct"
| "type_of_derived (MFDummyInstruction nxt) = Dummy"
| "type_of_derived MFReturnInstruction = Return"

definition instr_type :: "MFInstruction \<Rightarrow> MFInstructionType" where
  "instr_type ins = type_of_derived (derived ins)"

text \<open>
  \<^verbatim>\<open>MFProcedure\<close>. The vectors \<^verbatim>\<open>call_instructions_\<close>, \<^verbatim>\<open>branch_instructions_\<close>,
  \<^verbatim>\<open>destruct_instructions_\<close>, \<^verbatim>\<open>dummy_instructions_\<close> and \<^verbatim>\<open>return_instructions_\<close> hold
  the instructions of one class each, in creation order: they are the cells of that class
  in the instruction arena \<open>instruction_cells\<close>, computed by \<open>call_instructions\<close> and its
  siblings. \<^verbatim>\<open>variables_\<close> holds every variable in creation order (\<open>variables\<close>, over the
  arena \<open>variable_cells\<close>). An \<^verbatim>\<open>MFParameter\<close> is the pair of its type and its variable.
\<close>

record MFProcedure =
  instruction_cells :: "MFInstruction list"
  variable_cells :: "MFVariable list"
  params :: "(InterfaceType \<times> var_ptr) list"
  entry :: "instr_ptr option"

definition instruction_at :: "MFProcedure \<Rightarrow> instr_ptr \<Rightarrow> MFInstruction option" where
  "instruction_at p i = (if i < length (instruction_cells p) then Some (instruction_cells p ! i) else None)"

definition variable_at :: "MFProcedure \<Rightarrow> var_ptr \<Rightarrow> MFVariable option" where
  "variable_at p v = (if v < length (variable_cells p) then Some (variable_cells p ! v) else None)"

definition instructions_of_type :: "MFProcedure \<Rightarrow> MFInstructionType \<Rightarrow> instr_ptr list" where
  "instructions_of_type p t =
     filter (\<lambda>i. instr_type (instruction_cells p ! i) = t) [0..<length (instruction_cells p)]"

definition call_instructions :: "MFProcedure \<Rightarrow> instr_ptr list" where
  "call_instructions p = instructions_of_type p Call"

definition branch_instructions :: "MFProcedure \<Rightarrow> instr_ptr list" where
  "branch_instructions p = instructions_of_type p Branch"

definition destruct_instructions :: "MFProcedure \<Rightarrow> instr_ptr list" where
  "destruct_instructions p = instructions_of_type p Destruct"

definition dummy_instructions :: "MFProcedure \<Rightarrow> instr_ptr list" where
  "dummy_instructions p = instructions_of_type p Dummy"

definition return_instructions :: "MFProcedure \<Rightarrow> instr_ptr list" where
  "return_instructions p = instructions_of_type p Return"

definition variables :: "MFProcedure \<Rightarrow> var_ptr list" where
  "variables p = [0..<length (variable_cells p)]"

section \<open>The initialization analysis\<close>

record InitState =
  can_be_initialized :: bool
  can_be_uninitialized :: bool

text \<open>The loop of the lambda \<^verbatim>\<open>check_entry_instruction\<close> over the procedure parameters.\<close>

fun caller_initialized_variable :: "(InterfaceType \<times> var_ptr) list \<Rightarrow> var_ptr \<Rightarrow> bool" where
  "caller_initialized_variable [] target_variable = False"
| "caller_initialized_variable ((ty, var) # ps) target_variable =
     (if var = target_variable then
        (if ty = Input \<or> ty = Mutable then True
         else caller_initialized_variable ps target_variable)
      else caller_initialized_variable ps target_variable)"

definition check_entry_instruction :: "MFProcedure \<Rightarrow> var_ptr \<Rightarrow> InitState \<Rightarrow> InitState" where
  "check_entry_instruction p target_variable state =
     (if caller_initialized_variable (params p) target_variable
      then state\<lparr>can_be_initialized := True\<rparr>
      else state\<lparr>can_be_uninitialized := True\<rparr>)"

text \<open>
  The loop over \<^verbatim>\<open>fn.param_indices()\<close> in the \<^verbatim>\<open>Call\<close> case of the search: \<open>Some True\<close>
  when it breaks at an output slot that holds the target variable.
\<close>

fun call_outputs_variable ::
  "MultiFunction \<Rightarrow> var_ptr option list \<Rightarrow> var_ptr \<Rightarrow> nat list \<Rightarrow> bool option" where
  "call_outputs_variable fn ps target_variable [] = Some False"
| "call_outputs_variable fn ps target_variable (param_index # rest) =
     (if param_index < length ps then
        (if ps ! param_index = Some target_variable then
           (if interface_type (param_type fn param_index) = Output then Some True
            else call_outputs_variable fn ps target_variable rest)
         else call_outputs_variable fn ps target_variable rest)
      else None)"

text \<open>
  The \<^verbatim>\<open>switch\<close> on the type of the popped instruction: the new state and the flag
  \<^verbatim>\<open>state_modified\<close>.
\<close>

definition switch_instruction ::
  "var_ptr \<Rightarrow> MFInstruction \<Rightarrow> InitState \<Rightarrow> (InitState \<times> bool) option" where
  "switch_instruction target_variable instruction state =
     (case derived instruction of
        MFCallInstruction fn nxt ps \<Rightarrow>
          (case call_outputs_variable fn ps target_variable (param_indices fn) of
             None \<Rightarrow> None
           | Some True \<Rightarrow> Some (state\<lparr>can_be_initialized := True\<rparr>, True)
           | Some False \<Rightarrow> Some (state, False))
      | MFDestructInstruction var nxt \<Rightarrow>
          (if var = Some target_variable
           then Some (state\<lparr>can_be_uninitialized := True\<rparr>, True)
           else Some (state, False))
      | MFBranchInstruction c bt bf \<Rightarrow> Some (state, False)
      | MFDummyInstruction nxt \<Rightarrow> Some (state, False)
      | MFReturnInstruction \<Rightarrow> Some (state, False))"

text \<open>
  Modelled from the spec: the containers \<^verbatim>\<open>blender::Stack\<close> and \<^verbatim>\<open>blender::Set\<close> are not
  in this file. The spec calls \<^verbatim>\<open>instructions_to_check\<close> a worklist (stack or FIFO) and
  \<^verbatim>\<open>checked_instructions\<close> a visited set keyed on instruction identity. The stack is a
  list whose head is the top; \<open>push_multiple\<close> pushes the elements of a span one after
  the other, so the last one ends on top.
\<close>

definition push_multiple :: "'a list \<Rightarrow> 'a list \<Rightarrow> 'a list" where
  "push_multiple values stack = rev values @ stack"

text \<open>
  The \<^verbatim>\<open>while\<close> loop of \<^verbatim>\<open>find_initialization_state_before_instruction\<close>, on the visited
  set, the stack and the state.
\<close>

function check_loop ::
  "MFProcedure \<Rightarrow> var_ptr \<Rightarrow> instr_ptr set \<Rightarrow> instr_ptr list \<Rightarrow> InitState \<Rightarrow> InitState option"
  where
  "check_loop p target_variable checked_instructions [] state = Some state"
| "check_loop p target_variable checked_instructions (i # stack) state =
     (if i \<in> checked_instructions then
        check_loop p target_variable checked_instructions stack state
      else
        (case instruction_at p i of
           None \<Rightarrow> None
         | Some instruction \<Rightarrow>
             (case switch_instruction target_variable instruction state of
                None \<Rightarrow> None
              | Some (state', state_modified) \<Rightarrow>
                  (if \<not> state_modified then
                     check_loop p target_variable (insert i checked_instructions)
                       (push_multiple (prev instruction) stack)
                       (if entry p = Some i
                        then check_entry_instruction p target_variable state'
                        else state')
                   else
                     check_loop p target_variable (insert i checked_instructions)
                       stack state'))))"
  by pat_completeness auto

termination
proof (relation "measures
    [\<lambda>(p, tv, checked, stack, state). card ({..<length (instruction_cells p)} - checked),
     \<lambda>(p, tv, checked, stack, state). length stack]", goal_cases)
  case 1
  show ?case by simp
next
  case (2 p tv checked i stack state)
  then show ?case by simp
next
  case (3 p tv checked i stack state instruction x2 state' state_modified)
  then have "i \<in> {..<length (instruction_cells p)} - checked"
    by (auto simp: instruction_at_def split: if_splits)
  then have "card ({..<length (instruction_cells p)} - insert i checked)
      < card ({..<length (instruction_cells p)} - checked)"
    by (intro psubset_card_mono) auto
  then show ?case by simp
next
  case (4 p tv checked i stack state instruction x2 state' state_modified)
  then have "i \<in> {..<length (instruction_cells p)} - checked"
    by (auto simp: instruction_at_def split: if_splits)
  then have "card ({..<length (instruction_cells p)} - insert i checked)
      < card ({..<length (instruction_cells p)} - checked)"
    by (intro psubset_card_mono) auto
  then show ?case by simp
qed

definition find_initialization_state_before_instruction ::
  "MFProcedure \<Rightarrow> instr_ptr \<Rightarrow> var_ptr \<Rightarrow> InitState option" where
  "find_initialization_state_before_instruction p target_instruction target_variable =
     (case instruction_at p target_instruction of
        None \<Rightarrow> None
      | Some target \<Rightarrow>
          check_loop p target_variable {} (push_multiple (prev target) [])
            (if entry p = Some target_instruction
             then check_entry_instruction p target_variable
                    \<lparr>can_be_initialized = False, can_be_uninitialized = False\<rparr>
             else \<lparr>can_be_initialized = False, can_be_uninitialized = False\<rparr>))"

text \<open>
  The same loop with a log of what it does to the worklist: the instructions it has
  examined (popped and not skipped), in this order, and the instructions it has pushed.
  The state it returns is the state of \<open>check_loop\<close>.
\<close>

function check_loop_log ::
  "MFProcedure \<Rightarrow> var_ptr \<Rightarrow> instr_ptr set \<Rightarrow> instr_ptr list \<Rightarrow> InitState
     \<Rightarrow> (InitState \<times> instr_ptr list \<times> instr_ptr list) option"
  where
  "check_loop_log p target_variable checked_instructions [] state = Some (state, [], [])"
| "check_loop_log p target_variable checked_instructions (i # stack) state =
     (if i \<in> checked_instructions then
        check_loop_log p target_variable checked_instructions stack state
      else
        (case instruction_at p i of
           None \<Rightarrow> None
         | Some instruction \<Rightarrow>
             (case switch_instruction target_variable instruction state of
                None \<Rightarrow> None
              | Some (state', state_modified) \<Rightarrow>
                  (if \<not> state_modified then
                     map_option
                       (\<lambda>(s, examined_log, pushed_log).
                          (s, i # examined_log, prev instruction @ pushed_log))
                       (check_loop_log p target_variable (insert i checked_instructions)
                          (push_multiple (prev instruction) stack)
                          (if entry p = Some i
                           then check_entry_instruction p target_variable state'
                           else state'))
                   else
                     map_option
                       (\<lambda>(s, examined_log, pushed_log). (s, i # examined_log, pushed_log))
                       (check_loop_log p target_variable (insert i checked_instructions)
                          stack state')))))"
  by pat_completeness auto

termination
proof (relation "measures
    [\<lambda>(p, tv, checked, stack, state). card ({..<length (instruction_cells p)} - checked),
     \<lambda>(p, tv, checked, stack, state). length stack]", goal_cases)
  case 1
  show ?case by simp
next
  case (2 p tv checked i stack state)
  then show ?case by simp
next
  case (3 p tv checked i stack state instruction x2 state' state_modified)
  then have "i \<in> {..<length (instruction_cells p)} - checked"
    by (auto simp: instruction_at_def split: if_splits)
  then have "card ({..<length (instruction_cells p)} - insert i checked)
      < card ({..<length (instruction_cells p)} - checked)"
    by (intro psubset_card_mono) auto
  then show ?case by simp
next
  case (4 p tv checked i stack state instruction x2 state' state_modified)
  then have "i \<in> {..<length (instruction_cells p)} - checked"
    by (auto simp: instruction_at_def split: if_splits)
  then have "card ({..<length (instruction_cells p)} - insert i checked)
      < card ({..<length (instruction_cells p)} - checked)"
    by (intro psubset_card_mono) auto
  then show ?case by simp
qed

definition find_initialization_state_log ::
  "MFProcedure \<Rightarrow> instr_ptr \<Rightarrow> var_ptr
     \<Rightarrow> (InitState \<times> instr_ptr list \<times> instr_ptr list) option" where
  "find_initialization_state_log p target_instruction target_variable =
     (case instruction_at p target_instruction of
        None \<Rightarrow> None
      | Some target \<Rightarrow>
          map_option (\<lambda>(s, examined_log, pushed_log). (s, examined_log, prev target @ pushed_log))
            (check_loop_log p target_variable {} (push_multiple (prev target) [])
               (if entry p = Some target_instruction
                then check_entry_instruction p target_variable
                       \<lparr>can_be_initialized = False, can_be_uninitialized = False\<rparr>
                else \<lparr>can_be_initialized = False, can_be_uninitialized = False\<rparr>)))"

text \<open>The number of entries of all \<^verbatim>\<open>prev_\<close> vectors of the procedure.\<close>

definition total_prev :: "MFProcedure \<Rightarrow> nat" where
  "total_prev p = sum_list (map (\<lambda>c. length (prev c)) (instruction_cells p))"

section \<open>The validator\<close>

text \<open>
  Every pass of the validator is a nest of \<^verbatim>\<open>for\<close> loops whose body leaves with
  \<^verbatim>\<open>return false\<close> at the first failing element, followed by \<^verbatim>\<open>return true\<close>.
  \<open>for_each_check body xs\<close> is such a loop: \<open>body x\<close> is \<open>Some False\<close> where the body
  returns false, \<open>Some True\<close> where it goes on, and \<open>None\<close> where it is undefined.
  \<open>and_then a b\<close> runs \<open>b\<close> only after \<open>a\<close> has passed.
\<close>

fun for_each_check :: "('a \<Rightarrow> bool option) \<Rightarrow> 'a list \<Rightarrow> bool option" where
  "for_each_check body [] = Some True"
| "for_each_check body (x # xs) =
     (case body x of
        None \<Rightarrow> None
      | Some False \<Rightarrow> Some False
      | Some True \<Rightarrow> for_each_check body xs)"

definition and_then :: "bool option \<Rightarrow> bool option \<Rightarrow> bool option" where
  "and_then a b = (case a of None \<Rightarrow> None | Some False \<Rightarrow> Some False | Some True \<Rightarrow> b)"

text \<open>
  Dereferencing an element of one of the typed vectors (or a pointer after a
  \<^verbatim>\<open>static_cast\<close>): the fields of the derived class, \<open>None\<close> when the cell is missing or
  of another class.
\<close>

definition call_instruction_at ::
  "MFProcedure \<Rightarrow> instr_ptr \<Rightarrow> (MultiFunction \<times> instr_ptr option \<times> var_ptr option list) option"
  where
  "call_instruction_at p i =
     (case instruction_at p i of
        None \<Rightarrow> None
      | Some ins \<Rightarrow>
          (case derived ins of MFCallInstruction fn nxt ps \<Rightarrow> Some (fn, nxt, ps) | _ \<Rightarrow> None))"

definition branch_instruction_at ::
  "MFProcedure \<Rightarrow> instr_ptr \<Rightarrow> (var_ptr option \<times> instr_ptr option \<times> instr_ptr option) option"
  where
  "branch_instruction_at p i =
     (case instruction_at p i of
        None \<Rightarrow> None
      | Some ins \<Rightarrow>
          (case derived ins of MFBranchInstruction c bt bf \<Rightarrow> Some (c, bt, bf) | _ \<Rightarrow> None))"

definition destruct_instruction_at ::
  "MFProcedure \<Rightarrow> instr_ptr \<Rightarrow> (var_ptr option \<times> instr_ptr option) option" where
  "destruct_instruction_at p i =
     (case instruction_at p i of
        None \<Rightarrow> None
      | Some ins \<Rightarrow>
          (case derived ins of MFDestructInstruction v nxt \<Rightarrow> Some (v, nxt) | _ \<Rightarrow> None))"

definition dummy_instruction_at :: "MFProcedure \<Rightarrow> instr_ptr \<Rightarrow> instr_ptr option option" where
  "dummy_instruction_at p i =
     (case instruction_at p i of
        None \<Rightarrow> None
      | Some ins \<Rightarrow> (case derived ins of MFDummyInstruction nxt \<Rightarrow> Some nxt | _ \<Rightarrow> None))"

definition validate_all_instruction_pointers_set :: "MFProcedure \<Rightarrow> bool option" where
  "validate_all_instruction_pointers_set p =
     and_then
       (for_each_check
          (\<lambda>i. case call_instruction_at p i of
                 None \<Rightarrow> None
               | Some (fn, nxt, ps) \<Rightarrow> Some (nxt \<noteq> None))
          (call_instructions p))
    (and_then
       (for_each_check
          (\<lambda>i. case destruct_instruction_at p i of
                 None \<Rightarrow> None
               | Some (v, nxt) \<Rightarrow> Some (nxt \<noteq> None))
          (destruct_instructions p))
    (and_then
       (for_each_check
          (\<lambda>i. case branch_instruction_at p i of
                 None \<Rightarrow> None
               | Some (c, bt, bf) \<Rightarrow> if bt = None then Some False else Some (bf \<noteq> None))
          (branch_instructions p))
       (for_each_check
          (\<lambda>i. case dummy_instruction_at p i of
                 None \<Rightarrow> None
               | Some nxt \<Rightarrow> Some (nxt \<noteq> None))
          (dummy_instructions p))))"

definition validate_all_params_provided :: "MFProcedure \<Rightarrow> bool option" where
  "validate_all_params_provided p =
     and_then
       (for_each_check
          (\<lambda>i. case call_instruction_at p i of
                 None \<Rightarrow> None
               | Some (fn, nxt, ps) \<Rightarrow>
                   for_each_check (\<lambda>variable. Some (variable \<noteq> None)) ps)
          (call_instructions p))
    (and_then
       (for_each_check
          (\<lambda>i. case branch_instruction_at p i of
                 None \<Rightarrow> None
               | Some (c, bt, bf) \<Rightarrow> Some (c \<noteq> None))
          (branch_instructions p))
       (for_each_check
          (\<lambda>i. case destruct_instruction_at p i of
                 None \<Rightarrow> None
               | Some (v, nxt) \<Rightarrow> Some (v \<noteq> None))
          (destruct_instructions p)))"

text \<open>
  The body of the inner loop of \<^verbatim>\<open>validate_same_variables_in_one_call\<close>, for the slot
  \<open>param_index\<close> holding \<open>variable\<close> and the slot \<open>other_param_index\<close>.
\<close>

definition same_variable_check ::
  "MultiFunction \<Rightarrow> var_ptr option list \<Rightarrow> nat \<Rightarrow> var_ptr option \<Rightarrow> nat \<Rightarrow> bool option" where
  "same_variable_check fn ps param_index variable other_param_index =
     (if other_param_index = param_index then Some True
      else if \<not> other_param_index < length ps then None
      else if ps ! other_param_index \<noteq> variable then Some True
      else if interface_type (param_type fn param_index) = Mutable
            \<or> interface_type (param_type fn param_index) = Output then Some False
      else if interface_type (param_type fn other_param_index) \<noteq> Input then Some False
      else Some True)"

text \<open>The two loops over \<^verbatim>\<open>fn.param_indices()\<close> for one call instruction.\<close>

definition same_variables_in_call :: "MultiFunction \<Rightarrow> var_ptr option list \<Rightarrow> bool option" where
  "same_variables_in_call fn ps =
     for_each_check
       (\<lambda>param_index.
          if param_index < length ps then
            for_each_check (same_variable_check fn ps param_index (ps ! param_index))
              (param_indices fn)
          else None)
       (param_indices fn)"

definition validate_same_variables_in_one_call :: "MFProcedure \<Rightarrow> bool option" where
  "validate_same_variables_in_one_call p =
     for_each_check
       (\<lambda>i. case call_instruction_at p i of
              None \<Rightarrow> None
            | Some (fn, nxt, ps) \<Rightarrow> same_variables_in_call fn ps)
       (call_instructions p)"

text \<open>
  \<^verbatim>\<open>validate_parameters\<close>: \<^verbatim>\<open>Set::add\<close> returns false when the key is in the set already.
\<close>

fun validate_parameters_loop :: "(InterfaceType \<times> var_ptr) list \<Rightarrow> var_ptr set \<Rightarrow> bool" where
  "validate_parameters_loop [] vars = True"
| "validate_parameters_loop ((ty, variable) # rest) vars =
     (if variable \<in> vars then False
      else validate_parameters_loop rest (insert variable vars))"

definition validate_parameters :: "MFProcedure \<Rightarrow> bool" where
  "validate_parameters p = validate_parameters_loop (params p) {}"

text \<open>
  \<^verbatim>\<open>validate_initialization\<close>. The set \<^verbatim>\<open>variables_that_should_be_initialized_on_return\<close>
  is filled with \<^verbatim>\<open>Set::add_new\<close>, which expects a key that is not in the set yet;
  \<^verbatim>\<open>validate_parameters\<close> has run before and no variable is a parameter twice.
\<close>

definition variables_that_should_be_initialized_on_return :: "MFProcedure \<Rightarrow> var_ptr set" where
  "variables_that_should_be_initialized_on_return p =
     fold (\<lambda>(ty, variable) vars. if ty = Mutable \<or> ty = Output then insert variable vars else vars)
       (params p) {}"

definition destruct_initialization_check :: "MFProcedure \<Rightarrow> instr_ptr \<Rightarrow> bool option" where
  "destruct_initialization_check p i =
     (case destruct_instruction_at p i of
        None \<Rightarrow> None
      | Some (variable, nxt) \<Rightarrow>
          (case variable of
             None \<Rightarrow> None
           | Some v \<Rightarrow>
               (case find_initialization_state_before_instruction p i v of
                  None \<Rightarrow> None
                | Some state \<Rightarrow> Some (can_be_initialized state))))"

definition branch_initialization_check :: "MFProcedure \<Rightarrow> instr_ptr \<Rightarrow> bool option" where
  "branch_initialization_check p i =
     (case branch_instruction_at p i of
        None \<Rightarrow> None
      | Some (condition, bt, bf) \<Rightarrow>
          (case condition of
             None \<Rightarrow> None
           | Some v \<Rightarrow>
               (case find_initialization_state_before_instruction p i v of
                  None \<Rightarrow> None
                | Some state \<Rightarrow> Some (can_be_initialized state))))"

definition call_param_initialization_check ::
  "MFProcedure \<Rightarrow> instr_ptr \<Rightarrow> MultiFunction \<Rightarrow> var_ptr option list \<Rightarrow> nat \<Rightarrow> bool option" where
  "call_param_initialization_check p i fn ps param_index =
     (if param_index < length ps then
        (case ps ! param_index of
           None \<Rightarrow> None
         | Some v \<Rightarrow>
             (case find_initialization_state_before_instruction p i v of
                None \<Rightarrow> None
              | Some state \<Rightarrow>
                  (case interface_type (param_type fn param_index) of
                     Input \<Rightarrow> Some (can_be_initialized state)
                   | Mutable \<Rightarrow> Some (can_be_initialized state)
                   | Output \<Rightarrow> Some (can_be_uninitialized state))))
      else None)"

definition call_initialization_check :: "MFProcedure \<Rightarrow> instr_ptr \<Rightarrow> bool option" where
  "call_initialization_check p i =
     (case call_instruction_at p i of
        None \<Rightarrow> None
      | Some (fn, nxt, ps) \<Rightarrow>
          for_each_check (call_param_initialization_check p i fn ps) (param_indices fn))"

definition return_variable_initialization_check ::
  "MFProcedure \<Rightarrow> var_ptr set \<Rightarrow> instr_ptr \<Rightarrow> var_ptr \<Rightarrow> bool option" where
  "return_variable_initialization_check p should_be_initialized i variable =
     (case find_initialization_state_before_instruction p i variable of
        None \<Rightarrow> None
      | Some init_state \<Rightarrow>
          (if variable \<in> should_be_initialized then Some (can_be_initialized init_state)
           else Some (can_be_uninitialized init_state)))"

definition validate_initialization :: "MFProcedure \<Rightarrow> bool option" where
  "validate_initialization p =
     and_then (for_each_check (destruct_initialization_check p) (destruct_instructions p))
    (and_then (for_each_check (branch_initialization_check p) (branch_instructions p))
    (and_then (for_each_check (call_initialization_check p) (call_instructions p))
       (for_each_check
          (\<lambda>i. for_each_check
                 (return_variable_initialization_check p
                    (variables_that_should_be_initialized_on_return p) i)
                 (variables p))
          (return_instructions p))))"

definition validate :: "MFProcedure \<Rightarrow> bool option" where
  "validate p =
     (if entry p = None then Some False
      else
        and_then (validate_all_instruction_pointers_set p)
       (and_then (validate_all_params_provided p)
       (and_then (validate_same_variables_in_one_call p)
       (and_then (Some (validate_parameters p))
          (validate_initialization p)))))"

section \<open>Block discovery\<close>

definition has_to_be_block_begin :: "MFProcedure \<Rightarrow> instr_ptr \<Rightarrow> bool option" where
  "has_to_be_block_begin procedure instruction =
     (if entry procedure = Some instruction then Some True
      else
        (case instruction_at procedure instruction of
           None \<Rightarrow> None
         | Some ins \<Rightarrow>
             (if length (prev ins) \<noteq> 1 then Some True
              else
                (case instruction_at procedure (prev ins ! 0) of
                   None \<Rightarrow> None
                 | Some prev_instruction \<Rightarrow>
                     (if instr_type prev_instruction = Branch then Some True
                      else Some False)))))"

section \<open>The builder and the edge mutations\<close>

text \<open>
  Modelled from the spec: \<^verbatim>\<open>blender::Vector\<close> is not in this file. The spec has every
  edge mutation "remove this instruction once from the target's \<^verbatim>\<open>prev\<close>/\<^verbatim>\<open>users\<close>
  multiset" and then "append this instruction once to the new target's multiset".
  \<open>remove_first_occurrence_and_reorder\<close> looks for the first occurrence and fills its
  place with the last element, which is dropped from the end (the order of the others
  is not kept, as the name says); it is \<open>None\<close> when the value does not occur.
\<close>

fun first_index_of :: "'a \<Rightarrow> 'a list \<Rightarrow> nat option" where
  "first_index_of x [] = None"
| "first_index_of x (y # ys) =
     (if y = x then Some 0 else map_option Suc (first_index_of x ys))"

definition remove_and_reorder :: "nat \<Rightarrow> 'a list \<Rightarrow> 'a list" where
  "remove_and_reorder index xs = butlast (xs[index := last xs])"

definition remove_first_occurrence_and_reorder :: "'a \<Rightarrow> 'a list \<Rightarrow> 'a list option" where
  "remove_first_occurrence_and_reorder x xs =
     (case first_index_of x xs of
        None \<Rightarrow> None
      | Some index \<Rightarrow> Some (remove_and_reorder index xs))"

definition vector_append :: "'a \<Rightarrow> 'a list \<Rightarrow> 'a list" where
  "vector_append x xs = xs @ [x]"

text \<open>Writing to the cell behind a pointer that has been dereferenced before.\<close>

definition update_instruction ::
  "MFProcedure \<Rightarrow> instr_ptr \<Rightarrow> (MFInstruction \<Rightarrow> MFInstruction) \<Rightarrow> MFProcedure" where
  "update_instruction p i f =
     p\<lparr>instruction_cells := (instruction_cells p)[i := f (instruction_cells p ! i)]\<rparr>"

definition update_variable ::
  "MFProcedure \<Rightarrow> var_ptr \<Rightarrow> (MFVariable \<Rightarrow> MFVariable) \<Rightarrow> MFProcedure" where
  "update_variable p v f =
     p\<lparr>variable_cells := (variable_cells p)[v := f (variable_cells p ! v)]\<rparr>"

text \<open>
  \<^verbatim>\<open>target->prev_.remove_first_occurrence_and_reorder(this)\<close> and
  \<^verbatim>\<open>target->prev_.append(this)\<close>, and the same on \<^verbatim>\<open>users_\<close> of a variable.
\<close>

definition prev_remove :: "MFProcedure \<Rightarrow> instr_ptr \<Rightarrow> instr_ptr \<Rightarrow> MFProcedure option" where
  "prev_remove p target this =
     (case instruction_at p target of
        None \<Rightarrow> None
      | Some ins \<Rightarrow>
          (case remove_first_occurrence_and_reorder this (prev ins) of
             None \<Rightarrow> None
           | Some xs \<Rightarrow> Some (update_instruction p target (\<lambda>c. c\<lparr>prev := xs\<rparr>))))"

definition prev_append :: "MFProcedure \<Rightarrow> instr_ptr \<Rightarrow> instr_ptr \<Rightarrow> MFProcedure option" where
  "prev_append p target this =
     (case instruction_at p target of
        None \<Rightarrow> None
      | Some ins \<Rightarrow> Some (update_instruction p target (\<lambda>c. c\<lparr>prev := vector_append this (prev c)\<rparr>)))"

definition users_remove :: "MFProcedure \<Rightarrow> var_ptr \<Rightarrow> instr_ptr \<Rightarrow> MFProcedure option" where
  "users_remove p target this =
     (case variable_at p target of
        None \<Rightarrow> None
      | Some var \<Rightarrow>
          (case remove_first_occurrence_and_reorder this (users var) of
             None \<Rightarrow> None
           | Some xs \<Rightarrow> Some (update_variable p target (\<lambda>c. c\<lparr>users := xs\<rparr>))))"

definition users_append :: "MFProcedure \<Rightarrow> var_ptr \<Rightarrow> instr_ptr \<Rightarrow> MFProcedure option" where
  "users_append p target this =
     (case variable_at p target of
        None \<Rightarrow> None
      | Some var \<Rightarrow> Some (update_variable p target (\<lambda>c. c\<lparr>users := vector_append this (users c)\<rparr>)))"

text \<open>
  The two \<^verbatim>\<open>if\<close> statements every successor setter starts with: detach \<open>this\<close> from the
  old target unless it is null, attach it to the new one unless it is null.
\<close>

definition rewire_prev ::
  "MFProcedure \<Rightarrow> instr_ptr \<Rightarrow> instr_ptr option \<Rightarrow> instr_ptr option \<Rightarrow> MFProcedure option" where
  "rewire_prev p this old instruction =
     (case (case old of None \<Rightarrow> Some p | Some target \<Rightarrow> prev_remove p target this) of
        None \<Rightarrow> None
      | Some p1 \<Rightarrow>
          (case instruction of None \<Rightarrow> Some p1 | Some target \<Rightarrow> prev_append p1 target this))"

definition rewire_users ::
  "MFProcedure \<Rightarrow> instr_ptr \<Rightarrow> var_ptr option \<Rightarrow> var_ptr option \<Rightarrow> MFProcedure option" where
  "rewire_users p this old variable =
     (case (case old of None \<Rightarrow> Some p | Some target \<Rightarrow> users_remove p target this) of
        None \<Rightarrow> None
      | Some p1 \<Rightarrow>
          (case variable of None \<Rightarrow> Some p1 | Some target \<Rightarrow> users_append p1 target this))"

definition MFCallInstruction_set_next ::
  "MFProcedure \<Rightarrow> instr_ptr \<Rightarrow> instr_ptr option \<Rightarrow> MFProcedure option" where
  "MFCallInstruction_set_next p this instruction =
     (case call_instruction_at p this of
        None \<Rightarrow> None
      | Some (fn, nxt, ps) \<Rightarrow>
          (case rewire_prev p this nxt instruction of
             None \<Rightarrow> None
           | Some p' \<Rightarrow>
               Some (update_instruction p' this
                      (\<lambda>c. c\<lparr>derived := MFCallInstruction fn instruction ps\<rparr>))))"

text \<open>
  \<^verbatim>\<open>set_param_variable\<close>: \<^verbatim>\<open>param_index\<close> is an \<^verbatim>\<open>int\<close> in C++ and indexes the span
  \<^verbatim>\<open>params_\<close>; the assertion compares the data types when the variable is not null. The
  model decides the assertion first: detaching from the old variable changes neither the
  new variable's data type nor the function, and the result is \<open>None\<close> in either order.
\<close>

definition MFCallInstruction_set_param_variable ::
  "MFProcedure \<Rightarrow> instr_ptr \<Rightarrow> nat \<Rightarrow> var_ptr option \<Rightarrow> MFProcedure option" where
  "MFCallInstruction_set_param_variable p this param_index variable =
     (case call_instruction_at p this of
        None \<Rightarrow> None
      | Some (fn, nxt, ps) \<Rightarrow>
          (if \<not> param_index < length ps then None
           else if \<not> (case variable of
                         None \<Rightarrow> True
                       | Some v \<Rightarrow>
                           (case variable_at p v of
                              None \<Rightarrow> False
                            | Some var \<Rightarrow>
                                param_index < param_amount fn
                                \<and> data_type (param_type fn param_index) = var_data_type var))
                then None
           else
             (case rewire_users p this (ps ! param_index) variable of
                None \<Rightarrow> None
              | Some p' \<Rightarrow>
                  Some (update_instruction p' this
                         (\<lambda>c. c\<lparr>derived :=
                                  MFCallInstruction fn nxt (ps[param_index := variable])\<rparr>)))))"

fun set_params_loop ::
  "MFProcedure \<Rightarrow> instr_ptr \<Rightarrow> var_ptr option list \<Rightarrow> nat list \<Rightarrow> MFProcedure option" where
  "set_params_loop p this vs [] = Some p"
| "set_params_loop p this vs (i # rest) =
     (case MFCallInstruction_set_param_variable p this i (vs ! i) of
        None \<Rightarrow> None
      | Some p' \<Rightarrow> set_params_loop p' this vs rest)"

definition MFCallInstruction_set_params ::
  "MFProcedure \<Rightarrow> instr_ptr \<Rightarrow> var_ptr option list \<Rightarrow> MFProcedure option" where
  "MFCallInstruction_set_params p this vs =
     (case call_instruction_at p this of
        None \<Rightarrow> None
      | Some (fn, nxt, ps) \<Rightarrow>
          (if length vs \<noteq> length ps then None
           else set_params_loop p this vs [0..<length vs]))"

definition MFBranchInstruction_set_condition ::
  "MFProcedure \<Rightarrow> instr_ptr \<Rightarrow> var_ptr option \<Rightarrow> MFProcedure option" where
  "MFBranchInstruction_set_condition p this variable =
     (case branch_instruction_at p this of
        None \<Rightarrow> None
      | Some (condition, bt, bf) \<Rightarrow>
          (case rewire_users p this condition variable of
             None \<Rightarrow> None
           | Some p' \<Rightarrow>
               Some (update_instruction p' this
                      (\<lambda>c. c\<lparr>derived := MFBranchInstruction variable bt bf\<rparr>))))"

definition MFBranchInstruction_set_branch_true ::
  "MFProcedure \<Rightarrow> instr_ptr \<Rightarrow> instr_ptr option \<Rightarrow> MFProcedure option" where
  "MFBranchInstruction_set_branch_true p this instruction =
     (case branch_instruction_at p this of
        None \<Rightarrow> None
      | Some (condition, bt, bf) \<Rightarrow>
          (case rewire_prev p this bt instruction of
             None \<Rightarrow> None
           | Some p' \<Rightarrow>
               Some (update_instruction p' this
                      (\<lambda>c. c\<lparr>derived := MFBranchInstruction condition instruction bf\<rparr>))))"

definition MFBranchInstruction_set_branch_false ::
  "MFProcedure \<Rightarrow> instr_ptr \<Rightarrow> instr_ptr option \<Rightarrow> MFProcedure option" where
  "MFBranchInstruction_set_branch_false p this instruction =
     (case branch_instruction_at p this of
        None \<Rightarrow> None
      | Some (condition, bt, bf) \<Rightarrow>
          (case rewire_prev p this bf instruction of
             None \<Rightarrow> None
           | Some p' \<Rightarrow>
               Some (update_instruction p' this
                      (\<lambda>c. c\<lparr>derived := MFBranchInstruction condition bt instruction\<rparr>))))"

definition MFDestructInstruction_set_variable ::
  "MFProcedure \<Rightarrow> instr_ptr \<Rightarrow> var_ptr option \<Rightarrow> MFProcedure option" where
  "MFDestructInstruction_set_variable p this variable =
     (case destruct_instruction_at p this of
        None \<Rightarrow> None
      | Some (old, nxt) \<Rightarrow>
          (case rewire_users p this old variable of
             None \<Rightarrow> None
           | Some p' \<Rightarrow>
               Some (update_instruction p' this
                      (\<lambda>c. c\<lparr>derived := MFDestructInstruction variable nxt\<rparr>))))"

definition MFDestructInstruction_set_next ::
  "MFProcedure \<Rightarrow> instr_ptr \<Rightarrow> instr_ptr option \<Rightarrow> MFProcedure option" where
  "MFDestructInstruction_set_next p this instruction =
     (case destruct_instruction_at p this of
        None \<Rightarrow> None
      | Some (variable, nxt) \<Rightarrow>
          (case rewire_prev p this nxt instruction of
             None \<Rightarrow> None
           | Some p' \<Rightarrow>
               Some (update_instruction p' this
                      (\<lambda>c. c\<lparr>derived := MFDestructInstruction variable instruction\<rparr>))))"

definition MFDummyInstruction_set_next ::
  "MFProcedure \<Rightarrow> instr_ptr \<Rightarrow> instr_ptr option \<Rightarrow> MFProcedure option" where
  "MFDummyInstruction_set_next p this instruction =
     (case dummy_instruction_at p this of
        None \<Rightarrow> None
      | Some nxt \<Rightarrow>
          (case rewire_prev p this nxt instruction of
             None \<Rightarrow> None
           | Some p' \<Rightarrow>
               Some (update_instruction p' this
                      (\<lambda>c. c\<lparr>derived := MFDummyInstruction instruction\<rparr>))))"

text \<open>
  The factory methods return the new entity; here they return the procedure with the new
  cell and the pointer to it. A new instruction has no predecessors and null in every
  slot.
\<close>

definition empty_procedure :: MFProcedure where
  "empty_procedure = \<lparr>instruction_cells = [], variable_cells = [], params = [], entry = None\<rparr>"

definition new_variable :: "MFProcedure \<Rightarrow> MFDataType \<Rightarrow> string \<Rightarrow> MFProcedure \<times> var_ptr" where
  "new_variable p dt name =
     (p\<lparr>variable_cells := variable_cells p @
          [\<lparr>var_data_type = dt, users = [], var_name = name,
            var_id = length (variables p)\<rparr>]\<rparr>,
      length (variable_cells p))"

definition new_instruction :: "MFProcedure \<Rightarrow> MFDerived \<Rightarrow> MFProcedure \<times> instr_ptr" where
  "new_instruction p d =
     (p\<lparr>instruction_cells := instruction_cells p @ [\<lparr>prev = [], derived = d\<rparr>]\<rparr>,
      length (instruction_cells p))"

definition new_call_instruction :: "MFProcedure \<Rightarrow> MultiFunction \<Rightarrow> MFProcedure \<times> instr_ptr" where
  "new_call_instruction p fn =
     new_instruction p (MFCallInstruction fn None (replicate (param_amount fn) None))"

definition new_branch_instruction :: "MFProcedure \<Rightarrow> MFProcedure \<times> instr_ptr" where
  "new_branch_instruction p = new_instruction p (MFBranchInstruction None None None)"

definition new_destruct_instruction :: "MFProcedure \<Rightarrow> MFProcedure \<times> instr_ptr" where
  "new_destruct_instruction p = new_instruction p (MFDestructInstruction None None)"

definition new_dummy_instruction :: "MFProcedure \<Rightarrow> MFProcedure \<times> instr_ptr" where
  "new_dummy_instruction p = new_instruction p (MFDummyInstruction None)"

definition new_return_instruction :: "MFProcedure \<Rightarrow> MFProcedure \<times> instr_ptr" where
  "new_return_instruction p = new_instruction p MFReturnInstruction"

definition add_parameter :: "MFProcedure \<Rightarrow> InterfaceType \<Rightarrow> var_ptr \<Rightarrow> MFProcedure" where
  "add_parameter p interface_ty variable = p\<lparr>params := params p @ [(interface_ty, variable)]\<rparr>"

definition set_entry :: "MFProcedure \<Rightarrow> instr_ptr \<Rightarrow> MFProcedure" where
  "set_entry p e = p\<lparr>entry := Some e\<rparr>"

section \<open>The two consistency invariants\<close>

fun successor_slots :: "MFDerived \<Rightarrow> instr_ptr option list" where
  "successor_slots (MFCallInstruction fn nxt ps) = [nxt]"
| "successor_slots (MFBranchInstruction c bt bf) = [bt, bf]"
| "successor_slots (MFDestructInstruction v nxt) = [nxt]"
| "successor_slots (MFDummyInstruction nxt) = [nxt]"
| "successor_slots MFReturnInstruction = []"

fun variable_slots :: "MFDerived \<Rightarrow> var_ptr option list" where
  "variable_slots (MFCallInstruction fn nxt ps) = ps"
| "variable_slots (MFBranchInstruction c bt bf) = [c]"
| "variable_slots (MFDestructInstruction v nxt) = [v]"
| "variable_slots (MFDummyInstruction nxt) = []"
| "variable_slots MFReturnInstruction = []"

text \<open>
  The four multiplicities of the two invariants. A pointer that is not a cell of the
  procedure has no slots and no back-references.
\<close>

definition successor_multiplicity :: "MFProcedure \<Rightarrow> instr_ptr \<Rightarrow> instr_ptr \<Rightarrow> nat" where
  "successor_multiplicity p I J =
     (case instruction_at p I of
        None \<Rightarrow> 0
      | Some ins \<Rightarrow> count_list (successor_slots (derived ins)) (Some J))"

definition prev_multiplicity :: "MFProcedure \<Rightarrow> instr_ptr \<Rightarrow> instr_ptr \<Rightarrow> nat" where
  "prev_multiplicity p J I =
     (case instruction_at p J of None \<Rightarrow> 0 | Some ins \<Rightarrow> count_list (prev ins) I)"

definition slot_multiplicity :: "MFProcedure \<Rightarrow> instr_ptr \<Rightarrow> var_ptr \<Rightarrow> nat" where
  "slot_multiplicity p I V =
     (case instruction_at p I of
        None \<Rightarrow> 0
      | Some ins \<Rightarrow> count_list (variable_slots (derived ins)) (Some V))"

definition users_multiplicity :: "MFProcedure \<Rightarrow> var_ptr \<Rightarrow> instr_ptr \<Rightarrow> nat" where
  "users_multiplicity p V I =
     (case variable_at p V of None \<Rightarrow> 0 | Some var \<Rightarrow> count_list (users var) I)"

text \<open>
  Bidirectional edge consistency: the multiplicity of \<open>J\<close> among the successor slots of
  \<open>I\<close> is the multiplicity of \<open>I\<close> in the \<^verbatim>\<open>prev_\<close> vector of \<open>J\<close>. For two cells of the
  procedure this is the first conjunct; the second says that no successor slot and no
  \<^verbatim>\<open>prev_\<close> vector points outside of the procedure, which is the same equation for a
  pointer that is not a cell.
\<close>

definition edges_consistent :: "MFProcedure \<Rightarrow> bool" where
  "edges_consistent p =
     (list_all
        (\<lambda>I. list_all (\<lambda>J. successor_multiplicity p I J = prev_multiplicity p J I)
               [0..<length (instruction_cells p)])
        [0..<length (instruction_cells p)]
      \<and> list_all
          (\<lambda>c. list_all (\<lambda>s. case s of None \<Rightarrow> True
                               | Some J \<Rightarrow> J < length (instruction_cells p))
                  (successor_slots (derived c))
               \<and> list_all (\<lambda>J. J < length (instruction_cells p)) (prev c))
          (instruction_cells p))"

text \<open>
  Variable-user consistency: the number of slots of \<open>I\<close> that hold \<open>V\<close> is the
  multiplicity of \<open>I\<close> in the \<^verbatim>\<open>users_\<close> vector of \<open>V\<close>.
\<close>

definition users_consistent :: "MFProcedure \<Rightarrow> bool" where
  "users_consistent p =
     (list_all
        (\<lambda>I. list_all (\<lambda>V. slot_multiplicity p I V = users_multiplicity p V I)
               [0..<length (variable_cells p)])
        [0..<length (instruction_cells p)]
      \<and> list_all
          (\<lambda>c. list_all (\<lambda>s. case s of None \<Rightarrow> True
                               | Some V \<Rightarrow> V < length (variable_cells p))
                  (variable_slots (derived c)))
          (instruction_cells p)
      \<and> list_all (\<lambda>v. list_all (\<lambda>I. I < length (instruction_cells p)) (users v))
          (variable_cells p))"

text \<open>
  The two invariants as the spec states them, for every pair of pointers. They are
  equivalent to \<open>edges_consistent\<close> and \<open>users_consistent\<close> (lemma
  \<open>multiplicities_agree_iff\<close>).
\<close>

definition multiplicities_agree :: "MFProcedure \<Rightarrow> bool" where
  "multiplicities_agree p \<longleftrightarrow>
     (\<forall>I J. successor_multiplicity p I J = prev_multiplicity p J I)
     \<and> (\<forall>I V. slot_multiplicity p I V = users_multiplicity p V I)"

text \<open>
  The \<^verbatim>\<open>prev_\<close> vector of an instruction and the \<^verbatim>\<open>users_\<close> vector of a variable as
  multisets (\<open>None\<close> for a pointer that is not a cell).
\<close>

definition prev_multiset :: "MFProcedure \<Rightarrow> instr_ptr \<Rightarrow> instr_ptr multiset option" where
  "prev_multiset p J = map_option (\<lambda>c. mset (prev c)) (instruction_at p J)"

definition users_multiset :: "MFProcedure \<Rightarrow> var_ptr \<Rightarrow> instr_ptr multiset option" where
  "users_multiset p V = map_option (\<lambda>c. mset (users c)) (variable_at p V)"

section \<open>Well-formed procedures\<close>

text \<open>
  What the constructors and the mutation methods guarantee about the cells of a
  procedure, and what the analysis relies on when it dereferences: the span \<^verbatim>\<open>params_\<close>
  of a call instruction has one slot for each parameter of its function (it is allocated
  with \<^verbatim>\<open>fn.param_amount()\<close> elements and never resized), and every pointer in a
  \<^verbatim>\<open>prev_\<close> vector is a cell of the procedure.
\<close>

fun slots_allocated :: "MFDerived \<Rightarrow> bool" where
  "slots_allocated (MFCallInstruction fn nxt ps) = (length ps = param_amount fn)"
| "slots_allocated (MFBranchInstruction c bt bf) = True"
| "slots_allocated (MFDestructInstruction v nxt) = True"
| "slots_allocated (MFDummyInstruction nxt) = True"
| "slots_allocated MFReturnInstruction = True"

definition well_formed :: "MFProcedure \<Rightarrow> bool" where
  "well_formed p =
     list_all
       (\<lambda>c. slots_allocated (derived c)
            \<and> list_all (\<lambda>J. J < length (instruction_cells p)) (prev c))
       (instruction_cells p)"

text \<open>
  The cases of the search in the words of the spec: the popped instruction is a call that
  has the variable in an output slot, or it is a destruct instruction of the variable.
\<close>

fun call_with_output :: "MFDerived \<Rightarrow> var_ptr \<Rightarrow> bool" where
  "call_with_output (MFCallInstruction fn nxt ps) V =
     list_ex (\<lambda>i. ps ! i = Some V \<and> interface_type (param_type fn i) = Output)
       (param_indices fn)"
| "call_with_output (MFBranchInstruction c bt bf) V = False"
| "call_with_output (MFDestructInstruction v nxt) V = False"
| "call_with_output (MFDummyInstruction nxt) V = False"
| "call_with_output MFReturnInstruction V = False"

fun destruct_of :: "MFDerived \<Rightarrow> var_ptr \<Rightarrow> bool" where
  "destruct_of (MFDestructInstruction v nxt) V = (v = Some V)"
| "destruct_of (MFCallInstruction fn nxt ps) V = False"
| "destruct_of (MFBranchInstruction c bt bf) V = False"
| "destruct_of (MFDummyInstruction nxt) V = False"
| "destruct_of MFReturnInstruction V = False"

text \<open>
  The aliasing rule of the spec for one call: some variable is in a mutable or output
  slot and in another slot as well.
\<close>

definition aliased_in_call :: "MultiFunction \<Rightarrow> var_ptr option list \<Rightarrow> bool" where
  "aliased_in_call fn ps =
     list_ex
       (\<lambda>i. (interface_type (param_type fn i) = Mutable
              \<or> interface_type (param_type fn i) = Output)
            \<and> list_ex (\<lambda>j. j \<noteq> i \<and> ps ! i \<noteq> None \<and> ps ! j = ps ! i) (param_indices fn))
       (param_indices fn)"

fun call_aliased :: "MFDerived \<Rightarrow> bool" where
  "call_aliased (MFCallInstruction fn nxt ps) = aliased_in_call fn ps"
| "call_aliased (MFBranchInstruction c bt bf) = False"
| "call_aliased (MFDestructInstruction v nxt) = False"
| "call_aliased (MFDummyInstruction nxt) = False"
| "call_aliased MFReturnInstruction = False"

text \<open>
  The requirement of the spec at a return instruction, on the state computed for a
  variable before it.
\<close>

definition return_requirement :: "MFProcedure \<Rightarrow> var_ptr \<Rightarrow> InitState \<Rightarrow> bool" where
  "return_requirement p V state =
     (if (Mutable, V) \<in> set (params p) \<or> (Output, V) \<in> set (params p)
      then can_be_initialized state
      else can_be_uninitialized state)"

text \<open>
  The pairs of an instruction and a variable for which \<^verbatim>\<open>validate_initialization\<close>
  computes the state: a call, branch or destruct instruction with every variable in its
  slots, and a return instruction with every variable of the procedure.
\<close>

definition examined :: "MFProcedure \<Rightarrow> instr_ptr \<Rightarrow> var_ptr \<Rightarrow> bool" where
  "examined p I V =
     (case instruction_at p I of
        None \<Rightarrow> False
      | Some c \<Rightarrow>
          (case derived c of
             MFReturnInstruction \<Rightarrow> V \<in> set (variables p)
           | MFCallInstruction fn nxt ps \<Rightarrow> Some V \<in> set ps
           | MFBranchInstruction v bt bf \<Rightarrow> v = Some V
           | MFDestructInstruction v nxt \<Rightarrow> v = Some V
           | MFDummyInstruction nxt \<Rightarrow> False))"

text \<open>
  The edges of the control-flow graph as the \<^verbatim>\<open>prev_\<close> vectors give them (from an
  instruction to a predecessor) and as the successor slots give them.
\<close>

definition prev_edges :: "MFProcedure \<Rightarrow> (instr_ptr \<times> instr_ptr) set" where
  "prev_edges p = {(I, J). \<exists>c. instruction_at p I = Some c \<and> J \<in> set (prev c)}"

definition successor_edges :: "MFProcedure \<Rightarrow> (instr_ptr \<times> instr_ptr) set" where
  "successor_edges p =
     {(I, J). \<exists>c. instruction_at p I = Some c \<and> Some J \<in> set (successor_slots (derived c))}"

text \<open>One of the two bits of a state is set.\<close>

definition has_bit :: "InitState \<Rightarrow> bool" where
  "has_bit s \<longleftrightarrow> can_be_initialized s \<or> can_be_uninitialized s"

definition all_slots_allocated :: "MFProcedure \<Rightarrow> bool" where
  "all_slots_allocated p = list_all (\<lambda>c. slots_allocated (derived c)) (instruction_cells p)"

text \<open>
  The procedures that the builder can construct: the empty procedure, and what the
  factory methods, \<^verbatim>\<open>add_parameter\<close>, \<^verbatim>\<open>set_entry\<close> and the edge mutations that complete
  make of a procedure constructed before.
\<close>

inductive built :: "MFProcedure \<Rightarrow> bool" where
  built_empty: "built empty_procedure"
| built_new_variable: "built p \<Longrightarrow> built (fst (new_variable p dt name))"
| built_new_call_instruction: "built p \<Longrightarrow> built (fst (new_call_instruction p fn))"
| built_new_branch_instruction: "built p \<Longrightarrow> built (fst (new_branch_instruction p))"
| built_new_destruct_instruction: "built p \<Longrightarrow> built (fst (new_destruct_instruction p))"
| built_new_dummy_instruction: "built p \<Longrightarrow> built (fst (new_dummy_instruction p))"
| built_new_return_instruction: "built p \<Longrightarrow> built (fst (new_return_instruction p))"
| built_add_parameter: "built p \<Longrightarrow> built (add_parameter p interface_ty variable)"
| built_set_entry: "built p \<Longrightarrow> built (set_entry p e)"
| built_call_set_next:
    "built p \<Longrightarrow> MFCallInstruction_set_next p this instruction = Some p' \<Longrightarrow> built p'"
| built_set_param_variable:
    "built p \<Longrightarrow> MFCallInstruction_set_param_variable p this param_index variable = Some p'
       \<Longrightarrow> built p'"
| built_set_params:
    "built p \<Longrightarrow> MFCallInstruction_set_params p this vs = Some p' \<Longrightarrow> built p'"
| built_set_condition:
    "built p \<Longrightarrow> MFBranchInstruction_set_condition p this variable = Some p' \<Longrightarrow> built p'"
| built_set_branch_true:
    "built p \<Longrightarrow> MFBranchInstruction_set_branch_true p this instruction = Some p'
       \<Longrightarrow> built p'"
| built_set_branch_false:
    "built p \<Longrightarrow> MFBranchInstruction_set_branch_false p this instruction = Some p'
       \<Longrightarrow> built p'"
| built_set_variable:
    "built p \<Longrightarrow> MFDestructInstruction_set_variable p this variable = Some p' \<Longrightarrow> built p'"
| built_destruct_set_next:
    "built p \<Longrightarrow> MFDestructInstruction_set_next p this instruction = Some p' \<Longrightarrow> built p'"
| built_dummy_set_next:
    "built p \<Longrightarrow> MFDummyInstruction_set_next p this instruction = Some p' \<Longrightarrow> built p'"

section \<open>Example procedures\<close>

text \<open>
  \<open>F\<close> has one input and one output, \<open>F_out\<close> one output. \<open>identity_procedure\<close> has the
  parameters \<open>(Input, a)\<close> and \<open>(Output, b)\<close> and runs
  \<^verbatim>\<open>Call F(in a, out b) -> Destruct a -> Return\<close>.
\<close>

definition F :: MultiFunction where
  "F = \<lparr>fn_name = ''F'',
         param_types = [\<lparr>interface_type = Input, data_type = 0\<rparr>,
                        \<lparr>interface_type = Output, data_type = 0\<rparr>]\<rparr>"

definition F_out :: MultiFunction where
  "F_out = \<lparr>fn_name = ''F_out'', param_types = [\<lparr>interface_type = Output, data_type = 0\<rparr>]\<rparr>"

definition identity_procedure :: MFProcedure where
  "identity_procedure =
     \<lparr>instruction_cells =
        [\<lparr>prev = [], derived = MFCallInstruction F (Some 1) [Some 0, Some 1]\<rparr>,
         \<lparr>prev = [0], derived = MFDestructInstruction (Some 0) (Some 2)\<rparr>,
         \<lparr>prev = [1], derived = MFReturnInstruction\<rparr>],
      variable_cells =
        [\<lparr>var_data_type = 0, users = [0, 1], var_name = ''a'', var_id = 0\<rparr>,
         \<lparr>var_data_type = 0, users = [0], var_name = ''b'', var_id = 1\<rparr>],
      params = [(Input, 0), (Output, 1)],
      entry = Some 0\<rparr>"

text \<open>
  \<open>loop_procedure\<close> has the parameter \<open>(Mutable, cond)\<close> and a loop:
  \<^verbatim>\<open>Branch cond -> (true: Call F_out(out v) -> Destruct v -> back to Branch) (false: Return)\<close>.
\<close>

definition loop_procedure :: MFProcedure where
  "loop_procedure =
     \<lparr>instruction_cells =
        [\<lparr>prev = [2], derived = MFBranchInstruction (Some 0) (Some 1) (Some 3)\<rparr>,
         \<lparr>prev = [0], derived = MFCallInstruction F_out (Some 2) [Some 1]\<rparr>,
         \<lparr>prev = [1], derived = MFDestructInstruction (Some 1) (Some 0)\<rparr>,
         \<lparr>prev = [0], derived = MFReturnInstruction\<rparr>],
      variable_cells =
        [\<lparr>var_data_type = 0, users = [0], var_name = ''cond'', var_id = 0\<rparr>,
         \<lparr>var_data_type = 0, users = [1, 2], var_name = ''v'', var_id = 1\<rparr>],
      params = [(Mutable, 0)],
      entry = Some 0\<rparr>"

text \<open>
  \<open>G\<close> has two inputs and \<open>H\<close> two outputs. \<open>input_aliasing_procedure\<close> calls \<open>G\<close> with
  its input parameter \<open>x\<close> in both slots, destructs \<open>x\<close> and returns;
  \<open>output_aliasing_procedure\<close> calls \<open>H\<close> with its output parameter \<open>x\<close> in both slots
  and returns.
\<close>

definition G :: MultiFunction where
  "G = \<lparr>fn_name = ''G'',
         param_types = [\<lparr>interface_type = Input, data_type = 0\<rparr>,
                        \<lparr>interface_type = Input, data_type = 0\<rparr>]\<rparr>"

definition H :: MultiFunction where
  "H = \<lparr>fn_name = ''H'',
         param_types = [\<lparr>interface_type = Output, data_type = 0\<rparr>,
                        \<lparr>interface_type = Output, data_type = 0\<rparr>]\<rparr>"

definition input_aliasing_procedure :: MFProcedure where
  "input_aliasing_procedure =
     \<lparr>instruction_cells =
        [\<lparr>prev = [], derived = MFCallInstruction G (Some 1) [Some 0, Some 0]\<rparr>,
         \<lparr>prev = [0], derived = MFDestructInstruction (Some 0) (Some 2)\<rparr>,
         \<lparr>prev = [1], derived = MFReturnInstruction\<rparr>],
      variable_cells =
        [\<lparr>var_data_type = 0, users = [0, 0, 1], var_name = ''x'', var_id = 0\<rparr>],
      params = [(Input, 0)],
      entry = Some 0\<rparr>"

definition output_aliasing_procedure :: MFProcedure where
  "output_aliasing_procedure =
     \<lparr>instruction_cells =
        [\<lparr>prev = [], derived = MFCallInstruction H (Some 1) [Some 0, Some 0]\<rparr>,
         \<lparr>prev = [0], derived = MFReturnInstruction\<rparr>],
      variable_cells =
        [\<lparr>var_data_type = 0, users = [0, 0], var_name = ''x'', var_id = 0\<rparr>],
      params = [(Output, 0)],
      entry = Some 0\<rparr>"

text \<open>
  \<open>leak_procedure\<close> has no parameters and runs \<^verbatim>\<open>Call F_out(out v) -> Return\<close>: \<open>v\<close> is
  still initialized at the return instruction.
\<close>

definition leak_procedure :: MFProcedure where
  "leak_procedure =
     \<lparr>instruction_cells =
        [\<lparr>prev = [], derived = MFCallInstruction F_out (Some 1) [Some 0]\<rparr>,
         \<lparr>prev = [0], derived = MFReturnInstruction\<rparr>],
      variable_cells =
        [\<lparr>var_data_type = 0, users = [0], var_name = ''v'', var_id = 0\<rparr>],
      params = [],
      entry = Some 0\<rparr>"

text \<open>
  \<open>unreachable_destruct_procedure\<close> has the parameter \<open>(Input, a)\<close> and runs
  \<^verbatim>\<open>Destruct a -> Return\<close>; a second destruct instruction of \<open>a\<close> (cell 2) leads to the
  return instruction as well, and nothing leads to it.
\<close>

definition unreachable_destruct_procedure :: MFProcedure where
  "unreachable_destruct_procedure =
     \<lparr>instruction_cells =
        [\<lparr>prev = [], derived = MFDestructInstruction (Some 0) (Some 1)\<rparr>,
         \<lparr>prev = [0, 2], derived = MFReturnInstruction\<rparr>,
         \<lparr>prev = [], derived = MFDestructInstruction (Some 0) (Some 1)\<rparr>],
      variable_cells =
        [\<lparr>var_data_type = 0, users = [0, 2], var_name = ''a'', var_id = 0\<rparr>],
      params = [(Input, 0)],
      entry = Some 0\<rparr>"

text \<open>
  \<open>diamond_procedure\<close> has the parameter \<open>(Mutable, cond)\<close>; its branch on \<open>cond\<close> leads
  to two dummy instructions, which both lead to the return instruction.
\<close>

definition diamond_procedure :: MFProcedure where
  "diamond_procedure =
     \<lparr>instruction_cells =
        [\<lparr>prev = [], derived = MFBranchInstruction (Some 0) (Some 1) (Some 2)\<rparr>,
         \<lparr>prev = [0], derived = MFDummyInstruction (Some 3)\<rparr>,
         \<lparr>prev = [0], derived = MFDummyInstruction (Some 3)\<rparr>,
         \<lparr>prev = [1, 2], derived = MFReturnInstruction\<rparr>],
      variable_cells =
        [\<lparr>var_data_type = 0, users = [0], var_name = ''cond'', var_id = 0\<rparr>],
      params = [(Mutable, 0)],
      entry = Some 0\<rparr>"

section \<open>Loops and stages of the validator\<close>

lemma for_each_check_True:
  "for_each_check body xs = Some True \<longleftrightarrow> (\<forall>x\<in>set xs. body x = Some True)"
  by (induction xs) (auto split: option.splits bool.splits)

lemma for_each_check_defined:
  "(\<And>x. x \<in> set xs \<Longrightarrow> body x \<noteq> None) \<Longrightarrow>
   for_each_check body xs = Some (\<forall>x\<in>set xs. body x = Some True)"
  by (induction xs) (auto split: option.splits bool.splits)

lemma for_each_check_False:
  "for_each_check body xs = Some False \<Longrightarrow> \<exists>x\<in>set xs. body x = Some False"
  by (induction xs) (auto split: option.splits bool.splits)

lemma for_each_check_Some:
  "for_each_check (\<lambda>x. Some (P x)) xs = Some (\<forall>x\<in>set xs. P x)"
  by (induction xs) (auto split: bool.splits)

lemma and_then_True [simp]:
  "and_then a b = Some True \<longleftrightarrow> a = Some True \<and> b = Some True"
  by (auto simp: and_then_def split: option.splits bool.splits)

lemma and_then_False:
  "and_then a b = Some False \<longleftrightarrow> a = Some False \<or> (a = Some True \<and> b = Some False)"
  by (auto simp: and_then_def split: option.splits bool.splits)

lemma and_then_Some [simp]:
  "and_then (Some x) (Some y) = Some (x \<and> y)"
  by (auto simp: and_then_def split: bool.splits)

lemma validate_parameters_loop_iff:
  "validate_parameters_loop ps vars \<longleftrightarrow> distinct (map snd ps) \<and> snd ` set ps \<inter> vars = {}"
  by (induction ps vars rule: validate_parameters_loop.induct) auto

lemma validate_parameters_iff:
  "validate_parameters p \<longleftrightarrow> distinct (map snd (params p))"
  by (simp add: validate_parameters_def validate_parameters_loop_iff)

lemma caller_initialized_variable_iff:
  "caller_initialized_variable ps V \<longleftrightarrow> (Input, V) \<in> set ps \<or> (Mutable, V) \<in> set ps"
  by (induction ps V rule: caller_initialized_variable.induct) auto

lemma set_instructions_of_type:
  "set (instructions_of_type p t) =
     {i. i < length (instruction_cells p) \<and> instr_type (instruction_cells p ! i) = t}"
  by (auto simp: instructions_of_type_def)

lemma typed_loop:
  assumes "\<And>i. i < length (instruction_cells p) \<Longrightarrow> instr_type (instruction_cells p ! i) = t
             \<Longrightarrow> body i = Some (P i)"
  shows "for_each_check body (instructions_of_type p t) =
     Some (\<forall>i<length (instruction_cells p). instr_type (instruction_cells p ! i) = t \<longrightarrow> P i)"
  using assms
  by (subst for_each_check_defined) (auto simp: set_instructions_of_type)

lemma typed_loop_True:
  "for_each_check body (instructions_of_type p t) = Some True \<longleftrightarrow>
     (\<forall>i<length (instruction_cells p). instr_type (instruction_cells p ! i) = t
        \<longrightarrow> body i = Some True)"
  by (auto simp: for_each_check_True set_instructions_of_type)

lemma instr_type_simps:
  "instr_type c = Call \<longleftrightarrow> (\<exists>fn nxt ps. derived c = MFCallInstruction fn nxt ps)"
  "instr_type c = Branch \<longleftrightarrow> (\<exists>v bt bf. derived c = MFBranchInstruction v bt bf)"
  "instr_type c = Destruct \<longleftrightarrow> (\<exists>v nxt. derived c = MFDestructInstruction v nxt)"
  "instr_type c = Dummy \<longleftrightarrow> (\<exists>nxt. derived c = MFDummyInstruction nxt)"
  "instr_type c = Return \<longleftrightarrow> derived c = MFReturnInstruction"
  by (cases "derived c"; simp add: instr_type_def)+

lemma validate_all_instruction_pointers_set_eq:
  "validate_all_instruction_pointers_set p =
     Some (\<forall>c\<in>set (instruction_cells p). (\<forall>s\<in>set (successor_slots (derived c)). s \<noteq> None))"
proof -
  let ?n = "length (instruction_cells p)" and ?c = "\<lambda>i. instruction_cells p ! i"
  let ?Q = "\<lambda>i. \<forall>s\<in>set (successor_slots (derived (?c i))). s \<noteq> None"
  have 1: "for_each_check
          (\<lambda>i. case call_instruction_at p i of
                 None \<Rightarrow> None
               | Some (fn, nxt, ps) \<Rightarrow> Some (nxt \<noteq> None))
          (call_instructions p) =
       Some (\<forall>i<?n. instr_type (?c i) = Call \<longrightarrow> (\<forall>s\<in>set (successor_slots (derived (?c i))). s \<noteq> None))"
    unfolding call_instructions_def
    by (rule typed_loop) (auto simp: instr_type_simps call_instruction_at_def instruction_at_def)
  have 2: "for_each_check
          (\<lambda>i. case destruct_instruction_at p i of
                 None \<Rightarrow> None
               | Some (v, nxt) \<Rightarrow> Some (nxt \<noteq> None))
          (destruct_instructions p) =
       Some (\<forall>i<?n. instr_type (?c i) = Destruct \<longrightarrow> (\<forall>s\<in>set (successor_slots (derived (?c i))). s \<noteq> None))"
    unfolding destruct_instructions_def
    by (rule typed_loop) (auto simp: instr_type_simps destruct_instruction_at_def instruction_at_def)
  have 3: "for_each_check
          (\<lambda>i. case branch_instruction_at p i of
                 None \<Rightarrow> None
               | Some (c, bt, bf) \<Rightarrow> if bt = None then Some False else Some (bf \<noteq> None))
          (branch_instructions p) =
       Some (\<forall>i<?n. instr_type (?c i) = Branch \<longrightarrow> (\<forall>s\<in>set (successor_slots (derived (?c i))). s \<noteq> None))"
    unfolding branch_instructions_def
    by (rule typed_loop) (auto simp: instr_type_simps branch_instruction_at_def instruction_at_def)
  have 4: "for_each_check
          (\<lambda>i. case dummy_instruction_at p i of
                 None \<Rightarrow> None
               | Some nxt \<Rightarrow> Some (nxt \<noteq> None))
          (dummy_instructions p) =
       Some (\<forall>i<?n. instr_type (?c i) = Dummy \<longrightarrow> (\<forall>s\<in>set (successor_slots (derived (?c i))). s \<noteq> None))"
    unfolding dummy_instructions_def
    by (rule typed_loop) (auto simp: instr_type_simps dummy_instruction_at_def instruction_at_def)
  have ret: "instr_type c = Return \<Longrightarrow> (\<forall>s\<in>set (successor_slots (derived c)). s \<noteq> None)" for c
    by (simp add: instr_type_simps)
  have "(\<forall>c\<in>set (instruction_cells p). (\<forall>s\<in>set (successor_slots (derived c)). s \<noteq> None)) \<longleftrightarrow>
     (\<forall>i<?n. (\<forall>s\<in>set (successor_slots (derived (?c i))). s \<noteq> None))"
    by (simp add: all_set_conv_all_nth)
  also have "\<dots> \<longleftrightarrow>
       (\<forall>i<?n. instr_type (?c i) = Call \<longrightarrow> (\<forall>s\<in>set (successor_slots (derived (?c i))). s \<noteq> None))
     \<and> (\<forall>i<?n. instr_type (?c i) = Destruct \<longrightarrow> (\<forall>s\<in>set (successor_slots (derived (?c i))). s \<noteq> None))
     \<and> (\<forall>i<?n. instr_type (?c i) = Branch \<longrightarrow> (\<forall>s\<in>set (successor_slots (derived (?c i))). s \<noteq> None))
     \<and> (\<forall>i<?n. instr_type (?c i) = Dummy \<longrightarrow> (\<forall>s\<in>set (successor_slots (derived (?c i))). s \<noteq> None))"
    (is "?A \<longleftrightarrow> ?B")
  proof
    assume ?A then show ?B by simp
  next
    assume b: ?B
    show ?A
    proof (intro allI impI)
      fix i assume "i < ?n"
      with b ret [of "?c i"] show "?Q i"
        by (cases "instr_type (?c i)") simp_all
    qed
  qed
  finally show ?thesis
    unfolding validate_all_instruction_pointers_set_def 1 2 3 4 by simp 
qed

lemma validate_all_params_provided_eq:
  "validate_all_params_provided p =
     Some (\<forall>c\<in>set (instruction_cells p). (\<forall>s\<in>set (variable_slots (derived c)). s \<noteq> None))"
proof -
  let ?n = "length (instruction_cells p)" and ?c = "\<lambda>i. instruction_cells p ! i"
  let ?Q = "\<lambda>i. \<forall>s\<in>set (variable_slots (derived (?c i))). s \<noteq> None"
  have 1: "for_each_check
          (\<lambda>i. case call_instruction_at p i of
                 None \<Rightarrow> None
               | Some (fn, nxt, ps) \<Rightarrow>
                   for_each_check (\<lambda>variable. Some (variable \<noteq> None)) ps)
          (call_instructions p) =
       Some (\<forall>i<?n. instr_type (?c i) = Call \<longrightarrow> (\<forall>s\<in>set (variable_slots (derived (?c i))). s \<noteq> None))"
    unfolding call_instructions_def
    by (rule typed_loop)
      (auto simp: instr_type_simps call_instruction_at_def instruction_at_def for_each_check_Some
        )
  have 2: "for_each_check
          (\<lambda>i. case destruct_instruction_at p i of
                 None \<Rightarrow> None
               | Some (v, nxt) \<Rightarrow> Some (v \<noteq> None))
          (destruct_instructions p) =
       Some (\<forall>i<?n. instr_type (?c i) = Destruct \<longrightarrow> (\<forall>s\<in>set (variable_slots (derived (?c i))). s \<noteq> None))"
    unfolding destruct_instructions_def
    by (rule typed_loop) (auto simp: instr_type_simps destruct_instruction_at_def instruction_at_def)
  have 3: "for_each_check
          (\<lambda>i. case branch_instruction_at p i of
                 None \<Rightarrow> None
               | Some (c, bt, bf) \<Rightarrow> Some (c \<noteq> None))
          (branch_instructions p) =
       Some (\<forall>i<?n. instr_type (?c i) = Branch \<longrightarrow> (\<forall>s\<in>set (variable_slots (derived (?c i))). s \<noteq> None))"
    unfolding branch_instructions_def
    by (rule typed_loop) (auto simp: instr_type_simps branch_instruction_at_def instruction_at_def)
  have ret: "instr_type c = Return \<or> instr_type c = Dummy \<Longrightarrow> (\<forall>s\<in>set (variable_slots (derived c)). s \<noteq> None)" for c
    by (auto simp add: instr_type_simps)
  have "(\<forall>c\<in>set (instruction_cells p). (\<forall>s\<in>set (variable_slots (derived c)). s \<noteq> None)) \<longleftrightarrow>
     (\<forall>i<?n. (\<forall>s\<in>set (variable_slots (derived (?c i))). s \<noteq> None))"
    by (simp add: all_set_conv_all_nth)
  also have "\<dots> \<longleftrightarrow>
       (\<forall>i<?n. instr_type (?c i) = Call \<longrightarrow> (\<forall>s\<in>set (variable_slots (derived (?c i))). s \<noteq> None))
     \<and> (\<forall>i<?n. instr_type (?c i) = Branch \<longrightarrow> (\<forall>s\<in>set (variable_slots (derived (?c i))). s \<noteq> None))
     \<and> (\<forall>i<?n. instr_type (?c i) = Destruct \<longrightarrow> (\<forall>s\<in>set (variable_slots (derived (?c i))). s \<noteq> None))"
    (is "?A \<longleftrightarrow> ?B")
  proof
    assume ?A then show ?B by simp
  next
    assume b: ?B
    show ?A
    proof (intro allI impI)
      fix i assume "i < ?n"
      with b ret [of "?c i"] show "?Q i"
        by (cases "instr_type (?c i)") simp_all
    qed
  qed
  finally show ?thesis
    unfolding validate_all_params_provided_def 1 2 3 by simp 
qed

section \<open>Block begin\<close>

text \<open>
  C9. An instruction \<open>I\<close> of the procedure whose \<^verbatim>\<open>prev_\<close> pointers are cells of the
  procedure has to begin a block if and only if it is the entry, or its \<^verbatim>\<open>prev_\<close> list
  has a size other than one, or its only predecessor is a branch instruction.
\<close>

theorem has_to_be_block_begin_iff:
  assumes "instruction_at p I = Some ins"
    and "\<forall>J\<in>set (prev ins). instruction_at p J \<noteq> None"
  shows "has_to_be_block_begin p I =
     Some (entry p = Some I \<or> length (prev ins) \<noteq> 1 \<or>
           (\<exists>b pi. prev ins = [b] \<and> instruction_at p b = Some pi \<and> instr_type pi = Branch))"
proof (cases "entry p = Some I \<or> length (prev ins) \<noteq> 1")
  case True
  with assms(1) show ?thesis by (auto simp: has_to_be_block_begin_def)
next
  case False
  then obtain b where b: "prev ins = [b]"
    by (cases "prev ins") auto
  with assms(2) obtain pi where pi: "instruction_at p b = Some pi" by auto
  from False b pi assms(1) show ?thesis
    by (simp add: has_to_be_block_begin_def)
qed

text \<open>
  In \<open>loop_procedure\<close> the call (cell 1) follows the branch and begins a block; the
  destruct instruction (cell 2) follows the call and does not.
\<close>

theorem has_to_be_block_begin_witness:
  "has_to_be_block_begin loop_procedure 1 = Some True
   \<and> has_to_be_block_begin loop_procedure 2 = Some False"
proof -
  have c1: "instruction_at loop_procedure 1 =
      Some \<lparr>prev = [0], derived = MFCallInstruction F_out (Some 2) [Some 1]\<rparr>"
    by (simp add: instruction_at_def loop_procedure_def)
  have c2: "instruction_at loop_procedure 2 =
      Some \<lparr>prev = [1], derived = MFDestructInstruction (Some 1) (Some 0)\<rparr>"
    by (simp add: instruction_at_def loop_procedure_def)
  have v1: "\<forall>J\<in>set (prev \<lparr>prev = [0], derived = MFCallInstruction F_out (Some 2) [Some 1]\<rparr>).
      instruction_at loop_procedure J \<noteq> None"
    by (simp add: instruction_at_def loop_procedure_def)
  have v2: "\<forall>J\<in>set (prev \<lparr>prev = [1], derived = MFDestructInstruction (Some 1) (Some 0)\<rparr>).
      instruction_at loop_procedure J \<noteq> None"
    by (simp add: instruction_at_def loop_procedure_def)
  show ?thesis
    using has_to_be_block_begin_iff [OF c1 v1] has_to_be_block_begin_iff [OF c2 v2]
    by (simp add: instruction_at_def loop_procedure_def instr_type_def)
qed

section \<open>The entry state\<close>

text \<open>
  C4. In a procedure that has passed \<^verbatim>\<open>validate_parameters\<close> (no variable is a parameter
  twice), the entry state that \<^verbatim>\<open>check_entry_instruction\<close> folds into the state for a
  variable \<open>V\<close> is: initialized when \<open>V\<close> is a parameter with role \<open>Input\<close> or \<open>Mutable\<close>,
  uninitialized when \<open>V\<close> is a parameter with role \<open>Output\<close>, and uninitialized when \<open>V\<close>
  is no parameter. The other bit of the state is kept.
\<close>

theorem check_entry_instruction_roles:
  assumes "validate_parameters p"
  shows "((Input, V) \<in> set (params p) \<or> (Mutable, V) \<in> set (params p) \<longrightarrow>
            check_entry_instruction p V state = state\<lparr>can_be_initialized := True\<rparr>)
       \<and> ((Output, V) \<in> set (params p) \<longrightarrow>
            check_entry_instruction p V state = state\<lparr>can_be_uninitialized := True\<rparr>)
       \<and> (V \<notin> snd ` set (params p) \<longrightarrow>
            check_entry_instruction p V state = state\<lparr>can_be_uninitialized := True\<rparr>)"
proof -
  have d: "distinct (map snd (params p))"
    using assms by (simp add: validate_parameters_iff)
  have out: "(Output, V) \<in> set (params p) \<Longrightarrow>
      \<not> ((Input, V) \<in> set (params p) \<or> (Mutable, V) \<in> set (params p))"
    using d by (fastforce simp: distinct_map inj_on_def)
  have no: "V \<notin> snd ` set (params p) \<Longrightarrow>
      \<not> ((Input, V) \<in> set (params p) \<or> (Mutable, V) \<in> set (params p))"
    by force
  show ?thesis
    using out no by (auto simp: check_entry_instruction_def caller_initialized_variable_iff)
qed

text \<open>
  In \<open>identity_procedure\<close> the input \<open>a\<close> (variable 0) is initialized on entry, the
  output \<open>b\<close> (variable 1) and a variable that is no parameter (2) are not.
\<close>

theorem check_entry_instruction_roles_witness:
  "validate_parameters identity_procedure
   \<and> check_entry_instruction identity_procedure 0
        \<lparr>can_be_initialized = False, can_be_uninitialized = False\<rparr>
      = \<lparr>can_be_initialized = True, can_be_uninitialized = False\<rparr>
   \<and> check_entry_instruction identity_procedure 1
        \<lparr>can_be_initialized = False, can_be_uninitialized = False\<rparr>
      = \<lparr>can_be_initialized = False, can_be_uninitialized = True\<rparr>
   \<and> check_entry_instruction identity_procedure 2
        \<lparr>can_be_initialized = False, can_be_uninitialized = False\<rparr>
      = \<lparr>can_be_initialized = False, can_be_uninitialized = True\<rparr>"
proof -
  have v: "validate_parameters identity_procedure"
    by (simp add: validate_parameters_def identity_procedure_def)
  show ?thesis
    using v
      check_entry_instruction_roles [OF v, of 0
        "\<lparr>can_be_initialized = False, can_be_uninitialized = False\<rparr>"]
      check_entry_instruction_roles [OF v, of 1
        "\<lparr>can_be_initialized = False, can_be_uninitialized = False\<rparr>"]
      check_entry_instruction_roles [OF v, of 2
        "\<lparr>can_be_initialized = False, can_be_uninitialized = False\<rparr>"]
    by (simp add: identity_procedure_def)
qed

section \<open>The switch of the backward search\<close>

lemma call_outputs_variable_eq:
  "\<forall>i\<in>set is. i < length ps \<Longrightarrow>
   call_outputs_variable fn ps V is =
     Some (list_ex (\<lambda>i. ps ! i = Some V \<and> interface_type (param_type fn i) = Output) is)"
  by (induction "is") auto

lemma set_param_indices [simp]: "set (param_indices fn) = {..<param_amount fn}"
  by (auto simp: param_indices_def)

lemma switch_instruction_eq:
  assumes "slots_allocated (derived ins)"
  shows "switch_instruction V ins state =
     Some (if call_with_output (derived ins) V then (state\<lparr>can_be_initialized := True\<rparr>, True)
           else if destruct_of (derived ins) V then (state\<lparr>can_be_uninitialized := True\<rparr>, True)
           else (state, False))"
proof (cases "derived ins")
  case (MFCallInstruction fn nxt ps)
  with assms have "\<forall>i\<in>set (param_indices fn). i < length ps" by simp
  from call_outputs_variable_eq [OF this] MFCallInstruction show ?thesis
    by (simp add: switch_instruction_def)
qed (simp_all add: switch_instruction_def)

section \<open>Aliasing within one call\<close>

lemma same_variable_check_defined:
  "j < length ps \<Longrightarrow>
   same_variable_check fn ps i v j =
     Some (j = i \<or> ps ! j \<noteq> v \<or>
           (interface_type (param_type fn i) = Input \<and> interface_type (param_type fn j) = Input))"
  by (cases "interface_type (param_type fn i)") (auto simp: same_variable_check_def)

lemma same_variables_in_call_eq:
  assumes "length ps = param_amount fn"
  shows "same_variables_in_call fn ps =
     Some (\<forall>i<length ps. \<forall>j<length ps. j = i \<or> ps ! j \<noteq> ps ! i \<or>
             (interface_type (param_type fn i) = Input
              \<and> interface_type (param_type fn j) = Input))"
proof -
  have inner: "for_each_check (same_variable_check fn ps i (ps ! i)) (param_indices fn) =
      Some (\<forall>j<length ps. j = i \<or> ps ! j \<noteq> ps ! i \<or>
             (interface_type (param_type fn i) = Input
              \<and> interface_type (param_type fn j) = Input))" for i
    using assms
    by (subst for_each_check_defined) (auto simp: same_variable_check_defined)
  show ?thesis
    unfolding same_variables_in_call_def
    using assms
    by (subst for_each_check_defined) (auto simp: inner)
qed

lemma aliased_in_call_iff:
  "aliased_in_call fn ps \<longleftrightarrow>
     (\<exists>i<param_amount fn. \<exists>j<param_amount fn. j \<noteq> i \<and> ps ! i \<noteq> None \<and> ps ! j = ps ! i \<and>
        (interface_type (param_type fn i) = Mutable \<or> interface_type (param_type fn i) = Output))"
  by (auto simp: aliased_in_call_def list_ex_iff)

lemma same_variables_in_call_iff:
  assumes "length ps = param_amount fn" and "\<forall>v\<in>set ps. v \<noteq> None"
  shows "same_variables_in_call fn ps = Some (\<not> aliased_in_call fn ps)"
proof -
  let ?ty = "\<lambda>i. interface_type (param_type fn i)"
  have nn: "i < length ps \<Longrightarrow> ps ! i \<noteq> None" for i
    using assms(2) by auto
  have role: "r \<noteq> Input \<longleftrightarrow> r = Mutable \<or> r = Output" for r
    by (cases r) auto
  have "(\<forall>i<length ps. \<forall>j<length ps. j = i \<or> ps ! j \<noteq> ps ! i \<or>
             (?ty i = Input \<and> ?ty j = Input)) \<longleftrightarrow> \<not> aliased_in_call fn ps"
    (is "?L \<longleftrightarrow> _")
  proof
    assume l: ?L
    show "\<not> aliased_in_call fn ps"
    proof
      assume "aliased_in_call fn ps"
      then obtain i j where ij: "i < length ps" "j < length ps" "j \<noteq> i" "ps ! j = ps ! i"
        and m: "?ty i = Mutable \<or> ?ty i = Output"
        using assms(1) by (auto simp: aliased_in_call_iff)
      from l ij have "?ty i = Input" by blast
      with m show False by auto
    qed
  next
    assume r: "\<not> aliased_in_call fn ps"
    have inp: "?ty k = Input"
      if "k < length ps" "l < length ps" "l \<noteq> k" "ps ! l = ps ! k" for k l
    proof (rule ccontr)
      assume "?ty k \<noteq> Input"
      then have "?ty k = Mutable \<or> ?ty k = Output" by (simp add: role)
      with that nn [OF that(1)] assms(1) have "aliased_in_call fn ps"
        unfolding aliased_in_call_iff by (intro exI [of _ k] conjI exI [of _ l]) simp_all
      with r show False ..
    qed
    show ?L
    proof (intro allI impI)
      fix i j assume ij: "i < length ps" "j < length ps"
      show "j = i \<or> ps ! j \<noteq> ps ! i \<or> (?ty i = Input \<and> ?ty j = Input)"
        using inp [of i j] inp [of j i] ij by (cases "j = i") auto
    qed
  qed
  with same_variables_in_call_eq [OF assms(1)] show ?thesis by simp
qed

section \<open>The validator is defined on well-formed procedures\<close>

lemma well_formed_cell:
  assumes "well_formed p" and "instruction_at p i = Some c"
  shows "slots_allocated (derived c)" and "\<forall>J\<in>set (prev c). J < length (instruction_cells p)"
  using assms
  by (auto simp: well_formed_def list_all_iff instruction_at_def split: if_splits)

lemma instruction_at_Some_iff:
  "(\<exists>c. instruction_at p i = Some c) \<longleftrightarrow> i < length (instruction_cells p)"
  by (simp add: instruction_at_def)

lemma check_loop_defined:
  "well_formed p \<Longrightarrow> \<forall>i\<in>set stack. i < length (instruction_cells p) \<Longrightarrow>
     \<exists>state'. check_loop p V checked stack state = Some state'"
proof (induction p V checked stack state rule: check_loop.induct)
  case (1 p V checked state)
  show ?case by simp
next
  case (2 p V checked i stack state)
  show ?case
  proof (cases "i \<in> checked")
    case True
    with 2 show ?thesis by simp
  next
    case False
    note assms = "2.prems"(1)
    from "2.prems" obtain c where c: "instruction_at p i = Some c"
      by (auto simp: instruction_at_def)
    note wf = well_formed_cell [OF assms c]
    note sw = switch_instruction_eq [OF wf(1), of V state]
    show ?thesis
    proof (cases "call_with_output (derived c) V \<or> destruct_of (derived c) V")
      case True
      then obtain st where st: "switch_instruction V c state = Some (st, True)"
        using sw by (cases "call_with_output (derived c) V") auto
      from "2.IH"(3) [OF False c st refl] "2.prems" False c st show ?thesis
        by simp
    next
      case no: False
      then have st: "switch_instruction V c state = Some (state, False)"
        using sw by auto
      have "\<forall>j\<in>set (push_multiple (prev c) stack). j < length (instruction_cells p)"
        using wf(2) "2.prems" by (auto simp: push_multiple_def)
      from "2.IH"(2) [OF False c st refl _ assms this] False c st show ?thesis
        by simp
    qed
  qed
qed

lemma find_initialization_state_defined:
  assumes "well_formed p" and "I < length (instruction_cells p)"
  shows "\<exists>state. find_initialization_state_before_instruction p I V = Some state"
proof -
  from assms(2) obtain c where c: "instruction_at p I = Some c"
    by (auto simp: instruction_at_def)
  have "\<forall>j\<in>set (push_multiple (prev c) []). j < length (instruction_cells p)"
    using well_formed_cell(2) [OF assms(1) c] by (simp add: push_multiple_def)
  from check_loop_defined [OF assms(1) this] c show ?thesis
    by (simp add: find_initialization_state_before_instruction_def)
qed

lemma call_instructions_iff:
  "i \<in> set (call_instructions p) \<longleftrightarrow> (\<exists>c. call_instruction_at p i = Some c)"
  by (auto simp: call_instructions_def set_instructions_of_type call_instruction_at_def
      instruction_at_def instr_type_simps split: MFDerived.splits)

lemma branch_instructions_iff:
  "i \<in> set (branch_instructions p) \<longleftrightarrow> (\<exists>c. branch_instruction_at p i = Some c)"
  by (auto simp: branch_instructions_def set_instructions_of_type branch_instruction_at_def
      instruction_at_def instr_type_simps split: MFDerived.splits)

lemma destruct_instructions_iff:
  "i \<in> set (destruct_instructions p) \<longleftrightarrow> (\<exists>c. destruct_instruction_at p i = Some c)"
  by (auto simp: destruct_instructions_def set_instructions_of_type destruct_instruction_at_def
      instruction_at_def instr_type_simps split: MFDerived.splits)

lemma return_instructions_iff:
  "i \<in> set (return_instructions p) \<longleftrightarrow>
     (\<exists>c. instruction_at p i = Some c \<and> derived c = MFReturnInstruction)"
  by (auto simp: return_instructions_def set_instructions_of_type
      instruction_at_def instr_type_simps)

lemma call_instruction_at_cell:
  "call_instruction_at p i = Some (fn, nxt, ps) \<longleftrightarrow>
     (\<exists>c. instruction_at p i = Some c \<and> derived c = MFCallInstruction fn nxt ps)"
  by (auto simp: call_instruction_at_def split: option.splits MFDerived.splits)

lemma branch_instruction_at_cell:
  "branch_instruction_at p i = Some (v, bt, bf) \<longleftrightarrow>
     (\<exists>c. instruction_at p i = Some c \<and> derived c = MFBranchInstruction v bt bf)"
  by (auto simp: branch_instruction_at_def split: option.splits MFDerived.splits)

lemma destruct_instruction_at_cell:
  "destruct_instruction_at p i = Some (v, nxt) \<longleftrightarrow>
     (\<exists>c. instruction_at p i = Some c \<and> derived c = MFDestructInstruction v nxt)"
  by (auto simp: destruct_instruction_at_def split: option.splits MFDerived.splits)

lemma dummy_instruction_at_cell:
  "dummy_instruction_at p i = Some nxt \<longleftrightarrow>
     (\<exists>c. instruction_at p i = Some c \<and> derived c = MFDummyInstruction nxt)"
  by (auto simp: dummy_instruction_at_def split: option.splits MFDerived.splits)

lemma instruction_at_in_cells:
  "instruction_at p i = Some c \<Longrightarrow> c \<in> set (instruction_cells p)"
  by (auto simp: instruction_at_def split: if_splits)

lemma validate_same_variables_in_one_call_eq:
  assumes "well_formed p"
  shows "validate_same_variables_in_one_call p =
     Some (\<forall>i fn nxt ps. call_instruction_at p i = Some (fn, nxt, ps) \<longrightarrow>
             same_variables_in_call fn ps = Some True)"
proof -
  have d: "(case call_instruction_at p i of None \<Rightarrow> None
            | Some (fn, nxt, ps) \<Rightarrow> same_variables_in_call fn ps) \<noteq> None"
    if "i \<in> set (call_instructions p)" for i
  proof -
    from that obtain fn nxt ps where c: "call_instruction_at p i = Some (fn, nxt, ps)"
      by (auto simp: call_instructions_iff)
    then obtain cell where "instruction_at p i = Some cell"
      "derived cell = MFCallInstruction fn nxt ps"
      by (auto simp: call_instruction_at_cell)
    with well_formed_cell(1) [OF assms] have "length ps = param_amount fn" by fastforce
    from same_variables_in_call_eq [OF this] c show ?thesis by simp
  qed
  have "(\<forall>i\<in>set (call_instructions p).
           (case call_instruction_at p i of None \<Rightarrow> None
            | Some (fn, nxt, ps) \<Rightarrow> same_variables_in_call fn ps) = Some True) \<longleftrightarrow>
        (\<forall>i fn nxt ps. call_instruction_at p i = Some (fn, nxt, ps) \<longrightarrow>
             same_variables_in_call fn ps = Some True)"
  proof -
    have s: "set (call_instructions p) = {i. \<exists>c. call_instruction_at p i = Some c}"
      by (auto simp: call_instructions_iff)
    show ?thesis unfolding s by (auto split: option.splits)
  qed
  moreover have "validate_same_variables_in_one_call p =
      Some (\<forall>i\<in>set (call_instructions p).
           (case call_instruction_at p i of None \<Rightarrow> None
            | Some (fn, nxt, ps) \<Rightarrow> same_variables_in_call fn ps) = Some True)"
    unfolding validate_same_variables_in_one_call_def
    by (rule for_each_check_defined [OF d])
  ultimately show ?thesis by (simp only:)
qed

lemma variables_that_should_be_initialized_on_return_eq:
  "variables_that_should_be_initialized_on_return p =
     {V. (Mutable, V) \<in> set (params p) \<or> (Output, V) \<in> set (params p)}"
proof -
  have "fold (\<lambda>(ty, variable) vars.
               if ty = Mutable \<or> ty = Output then insert variable vars else vars) ps acc
      = acc \<union> {V. (Mutable, V) \<in> set ps \<or> (Output, V) \<in> set ps}" for ps acc
    by (induction ps arbitrary: acc) (auto split: if_splits)
  from this [of "params p" "{}"] show ?thesis
    by (simp add: variables_that_should_be_initialized_on_return_def)
qed

lemma validate_initialization_True:
  "validate_initialization p = Some True \<longleftrightarrow>
     (\<forall>i\<in>set (destruct_instructions p). destruct_initialization_check p i = Some True)
   \<and> (\<forall>i\<in>set (branch_instructions p). branch_initialization_check p i = Some True)
   \<and> (\<forall>i\<in>set (call_instructions p). call_initialization_check p i = Some True)
   \<and> (\<forall>i\<in>set (return_instructions p). \<forall>V\<in>set (variables p).
         return_variable_initialization_check p
           (variables_that_should_be_initialized_on_return p) i V = Some True)"
  by (simp add: validate_initialization_def for_each_check_True)

lemma validate_initialization_defined:
  assumes wf: "well_formed p"
    and ops: "\<forall>c\<in>set (instruction_cells p). \<forall>s\<in>set (variable_slots (derived c)). s \<noteq> None"
  shows "\<exists>b. validate_initialization p = Some b"
proof -
  note fd = find_initialization_state_defined [OF wf]
  have 1: "destruct_initialization_check p i \<noteq> None" if "i \<in> set (destruct_instructions p)" for i
  proof -
    from that obtain v nxt where d: "destruct_instruction_at p i = Some (v, nxt)"
      by (auto simp: destruct_instructions_iff)
    then obtain c where c: "instruction_at p i = Some c" "derived c = MFDestructInstruction v nxt"
      by (auto simp: destruct_instruction_at_cell)
    with ops instruction_at_in_cells [OF c(1)] obtain V where v: "v = Some V" by fastforce
    from c(1) have "i < length (instruction_cells p)"
      by (auto simp: instruction_at_def split: if_splits)
    from fd [OF this, of V] d v show ?thesis
      by (auto simp: destruct_initialization_check_def)
  qed
  have 2: "branch_initialization_check p i \<noteq> None" if "i \<in> set (branch_instructions p)" for i
  proof -
    from that obtain v bt bf where d: "branch_instruction_at p i = Some (v, bt, bf)"
      by (auto simp: branch_instructions_iff)
    then obtain c where c: "instruction_at p i = Some c" "derived c = MFBranchInstruction v bt bf"
      by (auto simp: branch_instruction_at_cell)
    with ops instruction_at_in_cells [OF c(1)] obtain V where v: "v = Some V" by fastforce
    from c(1) have "i < length (instruction_cells p)"
      by (auto simp: instruction_at_def split: if_splits)
    from fd [OF this, of V] d v show ?thesis
      by (auto simp: branch_initialization_check_def)
  qed
  have 3: "call_initialization_check p i \<noteq> None" if "i \<in> set (call_instructions p)" for i
  proof -
    from that obtain fn nxt ps where d: "call_instruction_at p i = Some (fn, nxt, ps)"
      by (auto simp: call_instructions_iff)
    then obtain c where c: "instruction_at p i = Some c" "derived c = MFCallInstruction fn nxt ps"
      by (auto simp: call_instruction_at_cell)
    from c(1) have i: "i < length (instruction_cells p)"
      by (auto simp: instruction_at_def split: if_splits)
    from well_formed_cell(1) [OF wf c(1)] c(2) have len: "length ps = param_amount fn" by simp
    have "call_param_initialization_check p i fn ps k \<noteq> None" if "k \<in> set (param_indices fn)" for k
    proof -
      from that len have k: "k < length ps" by simp
      with ops instruction_at_in_cells [OF c(1)] c(2) obtain V where v: "ps ! k = Some V"
        by fastforce
      from fd [OF i, of V] k v show ?thesis
        by (cases "interface_type (param_type fn k)")
          (auto simp: call_param_initialization_check_def)
    qed
    from for_each_check_defined [of "param_indices fn" "call_param_initialization_check p i fn ps", OF this] d
    show ?thesis by (simp add: call_initialization_check_def)
  qed
  have 4: "for_each_check (return_variable_initialization_check p S i) (variables p) \<noteq> None"
    if "i \<in> set (return_instructions p)" for i S
  proof -
    from that have i: "i < length (instruction_cells p)"
      by (auto simp: return_instructions_iff instruction_at_def split: if_splits)
    have "return_variable_initialization_check p S i V \<noteq> None" for V
      using fd [OF i, of V] by (auto simp: return_variable_initialization_check_def)
    from for_each_check_defined [of "variables p" "return_variable_initialization_check p S i", OF this]
    show ?thesis by simp
  qed
  show ?thesis
    unfolding validate_initialization_def
    by (simp add: for_each_check_defined [OF 1] for_each_check_defined [OF 2]
        for_each_check_defined [OF 3] for_each_check_defined [OF 4])
qed

lemma validate_defined:
  assumes "well_formed p"
  shows "\<exists>b. validate p = Some b"
proof (cases "\<forall>c\<in>set (instruction_cells p). \<forall>s\<in>set (variable_slots (derived c)). s \<noteq> None")
  case True
  from validate_initialization_defined [OF assms True] obtain b
    where "validate_initialization p = Some b" ..
  then show ?thesis
    by (auto simp: validate_def validate_all_instruction_pointers_set_eq
        validate_all_params_provided_eq validate_same_variables_in_one_call_eq [OF assms])
next
  case False
  then show ?thesis
    by (auto simp: validate_def validate_all_instruction_pointers_set_eq
        validate_all_params_provided_eq and_then_def split: bool.splits)
qed

lemma instruction_at_cells:
  "(\<exists>i. instruction_at p i = Some c) \<longleftrightarrow> c \<in> set (instruction_cells p)"
  by (auto simp: instruction_at_def in_set_conv_nth)

lemma call_cells_iff:
  "(\<forall>i fn nxt ps. call_instruction_at p i = Some (fn, nxt, ps) \<longrightarrow> Q fn ps) \<longleftrightarrow>
   (\<forall>c\<in>set (instruction_cells p). \<forall>fn nxt ps. derived c = MFCallInstruction fn nxt ps \<longrightarrow> Q fn ps)"
  unfolding call_instruction_at_cell
  by (metis instruction_at_cells)

lemma validate_same_variables_in_one_call_aliased:
  assumes "well_formed p"
    and "\<forall>c\<in>set (instruction_cells p). \<forall>s\<in>set (variable_slots (derived c)). s \<noteq> None"
  shows "validate_same_variables_in_one_call p =
     Some (\<forall>c\<in>set (instruction_cells p). \<not> call_aliased (derived c))"
proof -
  have wf: "slots_allocated (derived c)" if "c \<in> set (instruction_cells p)" for c
    using assms(1) that by (simp add: well_formed_def list_all_iff)
  have "(\<forall>c\<in>set (instruction_cells p). \<forall>fn nxt ps. derived c = MFCallInstruction fn nxt ps
            \<longrightarrow> same_variables_in_call fn ps = Some True) \<longleftrightarrow>
        (\<forall>c\<in>set (instruction_cells p). \<not> call_aliased (derived c))"
  proof (intro ball_cong refl)
    fix c assume c: "c \<in> set (instruction_cells p)"
    show "(\<forall>fn nxt ps. derived c = MFCallInstruction fn nxt ps
            \<longrightarrow> same_variables_in_call fn ps = Some True) \<longleftrightarrow> \<not> call_aliased (derived c)"
    proof (cases "derived c")
      case (MFCallInstruction fn nxt ps)
      with wf [OF c] assms(2) c have "length ps = param_amount fn" "\<forall>v\<in>set ps. v \<noteq> None"
        by fastforce+
      from same_variables_in_call_iff [OF this] MFCallInstruction show ?thesis by simp
    qed simp_all
  qed
  with validate_same_variables_in_one_call_eq [OF assms(1)] show ?thesis
    by (simp only: call_cells_iff)
qed

section \<open>The aliasing rule\<close>

text \<open>
  C7. In a well-formed procedure that has passed \<^verbatim>\<open>validate_all_params_provided\<close>, the
  check of one call instruction fails exactly when some variable is in a mutable or
  output slot of the call and in another slot of the same call as well, and
  \<^verbatim>\<open>validate_same_variables_in_one_call\<close> returns true exactly when no call instruction
  fails it. A variable in several input slots and in no other slot passes.
\<close>

theorem aliasing_check:
  assumes "well_formed p" and "validate_all_params_provided p = Some True"
  shows "(\<forall>i fn nxt ps. call_instruction_at p i = Some (fn, nxt, ps) \<longrightarrow>
            same_variables_in_call fn ps = Some (\<not> aliased_in_call fn ps))
       \<and> validate_same_variables_in_one_call p =
           Some (\<forall>c\<in>set (instruction_cells p). \<not> call_aliased (derived c))"
proof -
  from assms(2) have ops:
    "\<forall>c\<in>set (instruction_cells p). \<forall>s\<in>set (variable_slots (derived c)). s \<noteq> None"
    by (simp add: validate_all_params_provided_eq)
  have "same_variables_in_call fn ps = Some (\<not> aliased_in_call fn ps)"
    if "call_instruction_at p i = Some (fn, nxt, ps)" for i fn nxt ps
  proof -
    from that obtain c where c: "instruction_at p i = Some c"
      "derived c = MFCallInstruction fn nxt ps"
      by (auto simp: call_instruction_at_cell)
    from well_formed_cell(1) [OF assms(1) c(1)] c(2) have len: "length ps = param_amount fn"
      by simp
    from ops instruction_at_in_cells [OF c(1)] c(2) have "\<forall>v\<in>set ps. v \<noteq> None"
      by fastforce
    from same_variables_in_call_iff [OF len this] show ?thesis .
  qed
  with validate_same_variables_in_one_call_aliased [OF assms(1) ops] show ?thesis
    by blast
qed

text \<open>
  \<open>input_aliasing_procedure\<close> has \<open>x\<close> in both input slots of \<open>G\<close> and passes;
  \<open>output_aliasing_procedure\<close> has \<open>x\<close> in both output slots of \<open>H\<close> and fails.
\<close>

theorem aliasing_check_witness:
  "validate_same_variables_in_one_call input_aliasing_procedure = Some True
   \<and> validate_same_variables_in_one_call output_aliasing_procedure = Some False"
proof -
  have i: "well_formed input_aliasing_procedure"
    "validate_all_params_provided input_aliasing_procedure = Some True"
    by code_simp+
  have o: "well_formed output_aliasing_procedure"
    "validate_all_params_provided output_aliasing_procedure = Some True"
    by code_simp+
  have ai: "\<not> aliased_in_call G [Some 0, Some 0]" by code_simp
  have ao: "aliased_in_call H [Some 0, Some 0]" by code_simp
  from aliasing_check [OF i] ai
  have "validate_same_variables_in_one_call input_aliasing_procedure = Some True"
    by (simp add: input_aliasing_procedure_def)
  moreover from aliasing_check [OF o] ao
  have "validate_same_variables_in_one_call output_aliasing_procedure = Some False"
    by (simp add: output_aliasing_procedure_def)
  ultimately show ?thesis by simp
qed

section \<open>The six stages\<close>

text \<open>
  C2. \<^verbatim>\<open>validate\<close> returns true if and only if the six stages pass: the entry is set;
  no successor slot of an instruction is null; no variable slot of an instruction is
  null; \<^verbatim>\<open>validate_same_variables_in_one_call\<close> passes; no variable is a parameter of the
  procedure twice; \<^verbatim>\<open>validate_initialization\<close> passes. The stages run in this order and
  the first that fails makes \<^verbatim>\<open>validate\<close> return false, so that a later stage runs only
  on what the earlier ones have checked: on a well-formed procedure every stage that runs
  is defined, the fourth stage is the aliasing rule, and \<^verbatim>\<open>validate\<close> returns the
  conjunction of the six.
\<close>

theorem validate_six_stages:
  "(validate p = Some True \<longleftrightarrow>
      entry p \<noteq> None
      \<and> (\<forall>c\<in>set (instruction_cells p). \<forall>s\<in>set (successor_slots (derived c)). s \<noteq> None)
      \<and> (\<forall>c\<in>set (instruction_cells p). \<forall>s\<in>set (variable_slots (derived c)). s \<noteq> None)
      \<and> validate_same_variables_in_one_call p = Some True
      \<and> distinct (map snd (params p))
      \<and> validate_initialization p = Some True)
   \<and> (validate p = Some False \<longleftrightarrow>
      entry p = None
      \<or> validate_all_instruction_pointers_set p = Some False
      \<or> validate_all_instruction_pointers_set p = Some True
        \<and> (validate_all_params_provided p = Some False
          \<or> validate_all_params_provided p = Some True
            \<and> (validate_same_variables_in_one_call p = Some False
              \<or> validate_same_variables_in_one_call p = Some True
                \<and> (\<not> validate_parameters p
                  \<or> validate_parameters p \<and> validate_initialization p = Some False))))
   \<and> (well_formed p \<longrightarrow>
      validate p =
        Some (entry p \<noteq> None
          \<and> (\<forall>c\<in>set (instruction_cells p). \<forall>s\<in>set (successor_slots (derived c)). s \<noteq> None)
          \<and> (\<forall>c\<in>set (instruction_cells p). \<forall>s\<in>set (variable_slots (derived c)). s \<noteq> None)
          \<and> (\<forall>c\<in>set (instruction_cells p). \<not> call_aliased (derived c))
          \<and> distinct (map snd (params p))
          \<and> validate_initialization p = Some True))"
proof (intro conjI impI)
  show "validate p = Some True \<longleftrightarrow>
      entry p \<noteq> None
      \<and> (\<forall>c\<in>set (instruction_cells p). \<forall>s\<in>set (successor_slots (derived c)). s \<noteq> None)
      \<and> (\<forall>c\<in>set (instruction_cells p). \<forall>s\<in>set (variable_slots (derived c)). s \<noteq> None)
      \<and> validate_same_variables_in_one_call p = Some True
      \<and> distinct (map snd (params p))
      \<and> validate_initialization p = Some True"
    by (simp add: validate_def validate_all_instruction_pointers_set_eq
        validate_all_params_provided_eq validate_parameters_iff)
next
  show "validate p = Some False \<longleftrightarrow>
      entry p = None
      \<or> validate_all_instruction_pointers_set p = Some False
      \<or> validate_all_instruction_pointers_set p = Some True
        \<and> (validate_all_params_provided p = Some False
          \<or> validate_all_params_provided p = Some True
            \<and> (validate_same_variables_in_one_call p = Some False
              \<or> validate_same_variables_in_one_call p = Some True
                \<and> (\<not> validate_parameters p
                  \<or> validate_parameters p \<and> validate_initialization p = Some False)))"
    by (auto simp: validate_def and_then_False)
next
  assume wf: "well_formed p"
  show "validate p =
        Some (entry p \<noteq> None
          \<and> (\<forall>c\<in>set (instruction_cells p). \<forall>s\<in>set (successor_slots (derived c)). s \<noteq> None)
          \<and> (\<forall>c\<in>set (instruction_cells p). \<forall>s\<in>set (variable_slots (derived c)). s \<noteq> None)
          \<and> (\<forall>c\<in>set (instruction_cells p). \<not> call_aliased (derived c))
          \<and> distinct (map snd (params p))
          \<and> validate_initialization p = Some True)"
  proof (cases "\<forall>c\<in>set (instruction_cells p). \<forall>s\<in>set (variable_slots (derived c)). s \<noteq> None")
    case True
    from validate_initialization_defined [OF wf True] obtain b
      where "validate_initialization p = Some b" ..
    then show ?thesis
      by (auto simp: validate_def validate_all_instruction_pointers_set_eq
          validate_all_params_provided_eq validate_parameters_iff
          validate_same_variables_in_one_call_aliased [OF wf True])
  next
    case False
    then show ?thesis
      by (auto simp: validate_def validate_all_instruction_pointers_set_eq
          validate_all_params_provided_eq and_then_def split: bool.splits)
  qed
qed

text \<open>
  \<open>identity_procedure\<close> passes the six stages; \<open>output_aliasing_procedure\<close> fails the
  fourth.
\<close>

theorem validate_six_stages_witness:
  "validate identity_procedure = Some True
   \<and> validate output_aliasing_procedure = Some False"
proof -
  have i: "well_formed identity_procedure"
    "validate_initialization identity_procedure = Some True"
    by code_simp+
  have o: "well_formed output_aliasing_procedure"
    by code_simp
  have ao: "aliased_in_call H [Some 0, Some 0]" by code_simp
  have ai: "\<not> aliased_in_call F [Some 0, Some 1]" by code_simp
  from validate_six_stages [of identity_procedure] i ai
  have "validate identity_procedure = Some True"
    by (simp add: identity_procedure_def)
  moreover from validate_six_stages [of output_aliasing_procedure] o ao
  have "validate output_aliasing_procedure = Some False"
    by (simp add: output_aliasing_procedure_def)
  ultimately show ?thesis by simp
qed

section \<open>The requirement at a return instruction\<close>

lemma return_check_eq:
  "return_variable_initialization_check p
     (variables_that_should_be_initialized_on_return p) i V =
   map_option (return_requirement p V) (find_initialization_state_before_instruction p i V)"
  by (simp add: return_variable_initialization_check_def return_requirement_def
      variables_that_should_be_initialized_on_return_eq split: option.splits)

text \<open>
  C5. For every return instruction and every variable \<open>V\<close> of a well-formed procedure,
  with the state computed before the return instruction: if \<^verbatim>\<open>validate\<close> returns true,
  then \<open>can_be_initialized\<close> holds when \<open>V\<close> is a parameter with role \<open>Mutable\<close> or
  \<open>Output\<close> and \<open>can_be_uninitialized\<close> holds otherwise; and when this requirement is
  violated, \<^verbatim>\<open>validate\<close> returns false.
\<close>

theorem return_requirement_checked:
  assumes "well_formed p"
    and "i \<in> set (return_instructions p)" and "V \<in> set (variables p)"
    and "find_initialization_state_before_instruction p i V = Some state"
  shows "(validate p = Some True \<longrightarrow> return_requirement p V state)
       \<and> (\<not> return_requirement p V state \<longrightarrow> validate p = Some False)"
proof -
  have t: "return_requirement p V state" if "validate p = Some True"
  proof -
    from that have "validate_initialization p = Some True"
      by (simp add: validate_def split: if_splits)
    with assms(2,3) have "return_variable_initialization_check p
        (variables_that_should_be_initialized_on_return p) i V = Some True"
      by (simp add: validate_initialization_True)
    with assms(4) show ?thesis by (simp add: return_check_eq)
  qed
  from validate_defined [OF assms(1)] obtain b where "validate p = Some b" ..
  with t show ?thesis by (cases b) auto
qed

text \<open>
  In \<open>leak_procedure\<close> the variable \<open>v\<close> (0) is no parameter and is initialized, and not
  uninitialized, before the return instruction (cell 1): validation fails.
\<close>

theorem return_requirement_checked_witness:
  "find_initialization_state_before_instruction leak_procedure 1 0
     = Some \<lparr>can_be_initialized = True, can_be_uninitialized = False\<rparr>
   \<and> validate leak_procedure = Some False"
proof -
  have wf: "well_formed leak_procedure" by code_simp
  have r: "1 \<in> set (return_instructions leak_procedure)" by code_simp
  have v: "0 \<in> set (variables leak_procedure)" by code_simp
  have s: "find_initialization_state_before_instruction leak_procedure 1 0
     = Some \<lparr>can_be_initialized = True, can_be_uninitialized = False\<rparr>"
    by code_simp
  have n: "\<not> return_requirement leak_procedure 0
      \<lparr>can_be_initialized = True, can_be_uninitialized = False\<rparr>"
    by code_simp
  from return_requirement_checked [OF wf r v s] n s show ?thesis by simp
qed

section \<open>A state with no bit set\<close>

lemma check_entry_instruction_has_bit: "has_bit (check_entry_instruction p V state)"
  by (simp add: has_bit_def check_entry_instruction_def)

lemma switch_instruction_has_bit:
  "switch_instruction V c state = Some (st, m) \<Longrightarrow> (has_bit state \<or> m \<longrightarrow> has_bit st)"
  by (auto simp: switch_instruction_def has_bit_def
      split: MFDerived.splits option.splits bool.splits if_splits)

lemma check_loop_has_bit:
  "check_loop p V checked stack state = Some state' \<Longrightarrow> has_bit state \<Longrightarrow> has_bit state'"
proof (induction p V checked stack state rule: check_loop.induct)
  case (1 p V checked state)
  then show ?case by simp
next
  case (2 p V checked i stack state)
  show ?case
  proof (cases "i \<in> checked")
    case True
    with 2 show ?thesis by simp
  next
    case False
    with "2.prems"(1) obtain c st m where c: "instruction_at p i = Some c"
      and sw: "switch_instruction V c state = Some (st, m)"
      by (auto split: option.splits)
    from switch_instruction_has_bit [OF sw] "2.prems"(2) have st: "has_bit st" by simp
    show ?thesis
    proof (cases m)
      case True
      with "2.IH"(3) [OF False c sw refl] "2.prems"(1) False c sw st show ?thesis by simp
    next
      case m: False
      let ?st = "if entry p = Some i then check_entry_instruction p V st else st"
      have "has_bit ?st" using st by (simp add: check_entry_instruction_has_bit)
      with "2.IH"(2) [OF False c sw refl] "2.prems"(1) False c sw m show ?thesis by simp
    qed
  qed
qed

lemma check_loop_closed:
  "check_loop p V checked stack state = Some state' \<Longrightarrow> \<not> has_bit state' \<Longrightarrow>
   \<exists>C. checked \<union> set stack \<subseteq> C \<and>
       (\<forall>x\<in>C - checked. entry p \<noteq> Some x \<and>
          (\<forall>c. instruction_at p x = Some c \<longrightarrow> set (prev c) \<subseteq> C))"
proof (induction p V checked stack state rule: check_loop.induct)
  case (1 p V checked state)
  show ?case by (rule exI [of _ checked]) simp
next
  case (2 p V checked i stack state)
  show ?case
  proof (cases "i \<in> checked")
    case True
    with "2.IH"(1) "2.prems" obtain C where "checked \<union> set stack \<subseteq> C"
      "\<forall>x\<in>C - checked. entry p \<noteq> Some x \<and>
          (\<forall>c. instruction_at p x = Some c \<longrightarrow> set (prev c) \<subseteq> C)"
      by auto
    with True show ?thesis by (intro exI [of _ C]) auto
  next
    case False
    with "2.prems"(1) obtain c st m where c: "instruction_at p i = Some c"
      and sw: "switch_instruction V c state = Some (st, m)"
      by (auto split: option.splits)
    have m: "\<not> m"
    proof
      assume m: m
      with switch_instruction_has_bit [OF sw] have "has_bit st" by simp
      moreover from "2.prems"(1) False c sw m
      have "check_loop p V (insert i checked) stack st = Some state'" by simp
      ultimately show False using check_loop_has_bit "2.prems"(2) by blast
    qed
    let ?st = "if entry p = Some i then check_entry_instruction p V st else st"
    from "2.prems"(1) False c sw m
    have rec: "check_loop p V (insert i checked) (push_multiple (prev c) stack) ?st = Some state'"
      by simp
    have e: "entry p \<noteq> Some i"
    proof
      assume "entry p = Some i"
      then have "has_bit ?st" by (simp add: check_entry_instruction_has_bit)
      with check_loop_has_bit [OF rec] "2.prems"(2) show False by blast
    qed
    from "2.IH"(2) [OF False c sw refl _ rec "2.prems"(2)] m
    obtain C where C: "insert i checked \<union> set (push_multiple (prev c) stack) \<subseteq> C"
      "\<forall>x\<in>C - insert i checked. entry p \<noteq> Some x \<and>
          (\<forall>c. instruction_at p x = Some c \<longrightarrow> set (prev c) \<subseteq> C)"
      by auto
    show ?thesis
    proof (intro exI [of _ C] conjI ballI)
      show "checked \<union> set (i # stack) \<subseteq> C"
        using C(1) by (auto simp: push_multiple_def)
    next
      fix x assume x: "x \<in> C - checked"
      show "entry p \<noteq> Some x"
        using x C(2) e by (cases "x = i") auto
      show "\<forall>c. instruction_at p x = Some c \<longrightarrow> set (prev c) \<subseteq> C"
      proof (cases "x = i")
        case True
        with c C(1) show ?thesis by (auto simp: push_multiple_def)
      next
        case False
        with x C(2) show ?thesis by auto
      qed
    qed
  qed
qed

lemma no_bit_unreachable:
  assumes "find_initialization_state_before_instruction p I V = Some state"
    and "\<not> has_bit state" and "entry p = Some e"
  shows "(I, e) \<notin> (prev_edges p)\<^sup>*"
proof
  assume r: "(I, e) \<in> (prev_edges p)\<^sup>*"
  from assms(1) obtain c where c: "instruction_at p I = Some c"
    by (auto simp: find_initialization_state_before_instruction_def split: option.splits)
  let ?s0 = "\<lparr>can_be_initialized = False, can_be_uninitialized = False\<rparr>"
  let ?st = "if entry p = Some I then check_entry_instruction p V ?s0 else ?s0"
  from assms(1) c have loop: "check_loop p V {} (push_multiple (prev c) []) ?st = Some state"
    by (simp add: find_initialization_state_before_instruction_def)
  have ne: "I \<noteq> e"
  proof
    assume "I = e"
    with assms(3) have "has_bit ?st" by (simp add: check_entry_instruction_has_bit)
    with check_loop_has_bit [OF loop] assms(2) show False by blast
  qed
  from check_loop_closed [OF loop assms(2)] obtain C where C: "set (prev c) \<subseteq> C"
    "\<forall>x\<in>C. entry p \<noteq> Some x \<and> (\<forall>c. instruction_at p x = Some c \<longrightarrow> set (prev c) \<subseteq> C)"
    by (auto simp: push_multiple_def)
  have step: "y \<in> C" if "x \<in> C" "(x, y) \<in> prev_edges p" for x y
    using that C(2) by (auto simp: prev_edges_def)
  have star: "y \<in> C" if "(x, y) \<in> (prev_edges p)\<^sup>*" "x \<in> C" for x y
    using that by (induction rule: rtrancl_induct) (auto intro: step)
  from r ne obtain x where "(I, x) \<in> prev_edges p" "(x, e) \<in> (prev_edges p)\<^sup>*"
    by (auto elim: converse_rtranclE)
  with c C(1) have "x \<in> C" by (auto simp: prev_edges_def)
  with star \<open>(x, e) \<in> (prev_edges p)\<^sup>*\<close> have "e \<in> C" by blast
  with C(2) assms(3) show False by auto
qed

lemma count_list_pos: "0 < count_list xs x \<longleftrightarrow> x \<in> set xs"
  using count_list_0_iff [of xs x] by auto

lemma successor_multiplicity_pos:
  "0 < successor_multiplicity p I J \<longleftrightarrow> (I, J) \<in> successor_edges p"
  by (auto simp: successor_multiplicity_def successor_edges_def count_list_pos
      split: option.splits)

lemma prev_multiplicity_pos:
  "0 < prev_multiplicity p J I \<longleftrightarrow> (J, I) \<in> prev_edges p"
  by (auto simp: prev_multiplicity_def prev_edges_def count_list_pos split: option.splits)

lemma edges_consistent_iff:
  "edges_consistent p \<longleftrightarrow> (\<forall>I J. successor_multiplicity p I J = prev_multiplicity p J I)"
proof
  assume ec: "edges_consistent p"
  let ?n = "length (instruction_cells p)"
  from ec have eq: "successor_multiplicity p I J = prev_multiplicity p J I"
    if "I < ?n" "J < ?n" for I J
    using that by (simp add: edges_consistent_def list_all_iff)
  from ec have sl: "J < ?n" if "I < ?n" "Some J \<in> set (successor_slots (derived (instruction_cells p ! I)))" for I J
    using that by (fastforce simp: edges_consistent_def list_all_iff)
  from ec have pr: "I < ?n" if "J < ?n" "I \<in> set (prev (instruction_cells p ! J))" for I J
    using that by (fastforce simp: edges_consistent_def list_all_iff)
  show "\<forall>I J. successor_multiplicity p I J = prev_multiplicity p J I"
  proof (intro allI)
    fix I J
    consider "I < ?n" "J < ?n" | "\<not> I < ?n" | "I < ?n" "\<not> J < ?n" by blast
    then show "successor_multiplicity p I J = prev_multiplicity p J I"
    proof cases
      case 1
      then show ?thesis by (rule eq)
    next
      case 2
      then have "I \<notin> set (prev (instruction_cells p ! J))" if "J < ?n"
        using pr [OF that] by blast
      with 2 show ?thesis
        by (simp add: successor_multiplicity_def prev_multiplicity_def instruction_at_def
            count_list_0_iff)
    next
      case 3
      then have "Some J \<notin> set (successor_slots (derived (instruction_cells p ! I)))"
        using sl [of I J] by blast
      with 3 show ?thesis
        by (simp add: successor_multiplicity_def prev_multiplicity_def instruction_at_def
            count_list_0_iff)
    qed
  qed
next
  assume a: "\<forall>I J. successor_multiplicity p I J = prev_multiplicity p J I"
  let ?n = "length (instruction_cells p)"
  have v1: "J < ?n" if "(I, J) \<in> successor_edges p" for I J
  proof -
    from that a have "0 < prev_multiplicity p J I"
      by (simp flip: successor_multiplicity_pos)
    then show ?thesis
      by (auto simp: prev_multiplicity_def instruction_at_def split: if_splits)
  qed
  have v2: "I < ?n" if "(J, I) \<in> prev_edges p" for I J
  proof -
    from that a have "0 < successor_multiplicity p I J"
      by (simp flip: prev_multiplicity_pos)
    then show ?thesis
      by (auto simp: successor_multiplicity_def instruction_at_def split: if_splits)
  qed
  have "J < ?n" if "c \<in> set (instruction_cells p)" "Some J \<in> set (successor_slots (derived c))" for c J
  proof -
    from that(1) obtain I where "instruction_at p I = Some c"
      using instruction_at_cells [of p c] by blast
    with that(2) have "(I, J) \<in> successor_edges p" by (auto simp: successor_edges_def)
    then show ?thesis by (rule v1)
  qed
  moreover have "I < ?n" if "c \<in> set (instruction_cells p)" "I \<in> set (prev c)" for c I
  proof -
    from that(1) obtain J where "instruction_at p J = Some c"
      using instruction_at_cells [of p c] by blast
    with that(2) have "(J, I) \<in> prev_edges p" by (auto simp: prev_edges_def)
    then show ?thesis by (rule v2)
  qed
  ultimately show "edges_consistent p"
    using a by (auto simp: edges_consistent_def list_all_iff split: option.splits)
qed

lemma successor_edges_converse:
  assumes "edges_consistent p"
  shows "successor_edges p = (prev_edges p)\<inverse>"
proof -
  have "(I, J) \<in> successor_edges p \<longleftrightarrow> (J, I) \<in> prev_edges p" for I J
    using assms unfolding edges_consistent_iff
    by (metis successor_multiplicity_pos prev_multiplicity_pos)
  then show ?thesis by auto
qed

lemma examined_check:
  assumes wf: "well_formed p" and ex: "examined p I V"
    and st: "find_initialization_state_before_instruction p I V = Some state"
    and v: "validate_initialization p = Some True"
  shows "has_bit state"
proof -
  from ex obtain c where c: "instruction_at p I = Some c"
    by (auto simp: examined_def split: option.splits)
  note vi = v [unfolded validate_initialization_True]
  show ?thesis
  proof (cases "derived c")
    case (MFCallInstruction fn nxt ps)
    with ex c obtain k where k: "k < length ps" "ps ! k = Some V"
      by (auto simp: examined_def in_set_conv_nth)
    from c MFCallInstruction have ca: "call_instruction_at p I = Some (fn, nxt, ps)"
      by (simp add: call_instruction_at_cell)
    then have "I \<in> set (call_instructions p)" by (simp add: call_instructions_iff)
    with vi have "call_initialization_check p I = Some True" by blast
    with ca have "for_each_check (call_param_initialization_check p I fn ps) (param_indices fn)
        = Some True"
      by (simp add: call_initialization_check_def)
    moreover from well_formed_cell(1) [OF wf c] MFCallInstruction k
    have "k \<in> set (param_indices fn)" by simp
    ultimately have "call_param_initialization_check p I fn ps k = Some True"
      by (simp add: for_each_check_True)
    with k st show ?thesis
      by (cases "interface_type (param_type fn k)")
        (simp_all add: call_param_initialization_check_def has_bit_def)
  next
    case (MFBranchInstruction cond bt bf)
    with ex c have cond: "cond = Some V" by (simp add: examined_def)
    from c MFBranchInstruction have ba: "branch_instruction_at p I = Some (cond, bt, bf)"
      by (simp add: branch_instruction_at_cell)
    then have "I \<in> set (branch_instructions p)" by (simp add: branch_instructions_iff)
    with vi have "branch_initialization_check p I = Some True" by blast
    with ba cond st show ?thesis
      by (simp add: branch_initialization_check_def has_bit_def)
  next
    case (MFDestructInstruction var nxt)
    with ex c have var: "var = Some V" by (simp add: examined_def)
    from c MFDestructInstruction have da: "destruct_instruction_at p I = Some (var, nxt)"
      by (simp add: destruct_instruction_at_cell)
    then have "I \<in> set (destruct_instructions p)" by (simp add: destruct_instructions_iff)
    with vi have "destruct_initialization_check p I = Some True" by blast
    with da var st show ?thesis
      by (simp add: destruct_initialization_check_def has_bit_def)
  next
    case (MFDummyInstruction nxt)
    with ex c show ?thesis by (simp add: examined_def)
  next
    case MFReturnInstruction
    with ex c have V: "V \<in> set (variables p)" by (simp add: examined_def)
    from c MFReturnInstruction have "I \<in> set (return_instructions p)"
      by (simp add: return_instructions_iff)
    with vi V have "return_variable_initialization_check p
        (variables_that_should_be_initialized_on_return p) I V = Some True" by blast
    with st show ?thesis
      by (auto simp: return_check_eq return_requirement_def has_bit_def split: if_splits)
  qed
qed

lemma unreachable_destruct_procedure_built:
  "(let (p, a) = new_variable empty_procedure 0 ''a'';
        p = add_parameter p Input a;
        (p, d0) = new_destruct_instruction p;
        (p, r) = new_return_instruction p;
        (p, d2) = new_destruct_instruction p;
        p = set_entry p d0
    in Option.bind (MFDestructInstruction_set_variable p d0 (Some a)) (\<lambda>p.
       Option.bind (MFDestructInstruction_set_next p d0 (Some r)) (\<lambda>p.
       Option.bind (MFDestructInstruction_set_variable p d2 (Some a)) (\<lambda>p.
       MFDestructInstruction_set_next p d2 (Some r)))))
   = Some unreachable_destruct_procedure"
  by code_simp

text \<open>
  C1, as the claim states it, fails. In \<open>unreachable_destruct_procedure\<close> the state
  before the second destruct instruction (cell 2) for its variable \<open>a\<close> has no bit set,
  the check of this pair returns false, every other check of every stage passes, and
  \<^verbatim>\<open>validate\<close> returns false.
\<close>

theorem empty_state_counterexample:
  "find_initialization_state_before_instruction unreachable_destruct_procedure 2 0
     = Some \<lparr>can_be_initialized = False, can_be_uninitialized = False\<rparr>
   \<and> examined unreachable_destruct_procedure 2 0
   \<and> destruct_initialization_check unreachable_destruct_procedure 2 = Some False
   \<and> destruct_initialization_check unreachable_destruct_procedure 0 = Some True
   \<and> for_each_check (branch_initialization_check unreachable_destruct_procedure)
        (branch_instructions unreachable_destruct_procedure) = Some True
   \<and> for_each_check (call_initialization_check unreachable_destruct_procedure)
        (call_instructions unreachable_destruct_procedure) = Some True
   \<and> return_variable_initialization_check unreachable_destruct_procedure
        (variables_that_should_be_initialized_on_return unreachable_destruct_procedure) 1 0
      = Some True
   \<and> entry unreachable_destruct_procedure = Some 0
   \<and> validate_all_instruction_pointers_set unreachable_destruct_procedure = Some True
   \<and> validate_all_params_provided unreachable_destruct_procedure = Some True
   \<and> validate_same_variables_in_one_call unreachable_destruct_procedure = Some True
   \<and> validate_parameters unreachable_destruct_procedure
   \<and> validate unreachable_destruct_procedure = Some False"
  by code_simp

text \<open>
  C1, amended. For every instruction \<open>I\<close> and variable \<open>V\<close> that the initialization
  analysis of a well-formed procedure examines: if the state computed before \<open>I\<close> has
  both bits false, then \<open>I\<close> is unreachable (no chain of \<^verbatim>\<open>prev_\<close> entries leads from \<open>I\<close>
  back to the entry and, when the edges are consistent, no chain of successor edges
  leads from the entry to \<open>I\<close>), and the requirement at \<open>(I, V)\<close> is violated:
  \<^verbatim>\<open>validate\<close> returns false.
\<close>

theorem empty_state_fails:
  assumes "well_formed p" and "examined p I V"
    and "find_initialization_state_before_instruction p I V = Some state"
    and "\<not> can_be_initialized state" and "\<not> can_be_uninitialized state"
  shows "validate p = Some False
       \<and> (\<forall>e. entry p = Some e \<longrightarrow> (I, e) \<notin> (prev_edges p)\<^sup>*)
       \<and> (edges_consistent p \<longrightarrow> (\<forall>e. entry p = Some e \<longrightarrow> (e, I) \<notin> (successor_edges p)\<^sup>*))"
proof -
  from assms(4,5) have nb: "\<not> has_bit state" by (simp add: has_bit_def)
  have "validate p \<noteq> Some True"
  proof
    assume "validate p = Some True"
    then have "validate_initialization p = Some True"
      by (simp add: validate_def split: if_splits)
    from examined_check [OF assms(1,2,3) this] nb show False by simp
  qed
  with validate_defined [OF assms(1)] have 1: "validate p = Some False" by auto
  have 2: "(I, e) \<notin> (prev_edges p)\<^sup>*" if "entry p = Some e" for e
    using no_bit_unreachable [OF assms(3) nb that] .
  have 3: "(e, I) \<notin> (successor_edges p)\<^sup>*" if "edges_consistent p" "entry p = Some e" for e
    using 2 [OF that(2)] successor_edges_converse [OF that(1)]
    by (simp add: rtrancl_converse)
  from 1 2 3 show ?thesis by blast
qed

text \<open>
  In \<open>unreachable_destruct_procedure\<close>, for the second destruct instruction (cell 2)
  and its variable \<open>a\<close> (0).
\<close>

theorem empty_state_fails_witness:
  "validate unreachable_destruct_procedure = Some False
   \<and> (2, 0) \<notin> (prev_edges unreachable_destruct_procedure)\<^sup>*
   \<and> (0, 2) \<notin> (successor_edges unreachable_destruct_procedure)\<^sup>*"
proof -
  have wf: "well_formed unreachable_destruct_procedure" by code_simp
  have ex: "examined unreachable_destruct_procedure 2 0" by code_simp
  have st: "find_initialization_state_before_instruction unreachable_destruct_procedure 2 0
     = Some \<lparr>can_be_initialized = False, can_be_uninitialized = False\<rparr>"
    by code_simp
  have ec: "edges_consistent unreachable_destruct_procedure" by code_simp
  have e: "entry unreachable_destruct_procedure = Some 0"
    by (simp add: unreachable_destruct_procedure_def)
  from empty_state_fails [OF wf ex st] ec e show ?thesis by simp
qed

section \<open>Termination of the backward search\<close>

lemma check_loop_log_state:
  "map_option fst (check_loop_log p V checked stack state) = check_loop p V checked stack state"
proof (induction p V checked stack state rule: check_loop.induct)
  case (1 p V checked state)
  show ?case by simp
next
  case (2 p V checked i stack state)
  show ?case
  proof (cases "i \<in> checked")
    case True
    with "2.IH"(1) show ?thesis by simp
  next
    case False
    show ?thesis
    proof (cases "instruction_at p i")
      case None
      with False show ?thesis by simp
    next
      case (Some c)
      show ?thesis
      proof (cases "switch_instruction V c state")
        case None
        with False Some show ?thesis by simp
      next
        case sw: (Some r)
        obtain st m where r: "r = (st, m)" by (cases r)
        show ?thesis
        proof (cases m)
          case True
          with "2.IH"(3) [OF False Some sw r [symmetric]] False Some sw r show ?thesis
            by (simp add: option.map_comp comp_def split_def)
        next
          case m: False
          with "2.IH"(2) [OF False Some sw r [symmetric]] False Some sw r show ?thesis
            by (cases "entry p = Some i") (simp_all add: option.map_comp comp_def split_def)
        qed
      qed
    qed
  qed
qed

lemma check_loop_log_examined:
  "check_loop_log p V checked stack state = Some (state', ex, pu) \<Longrightarrow>
   distinct ex \<and> set ex \<inter> checked = {} \<and> set ex \<subseteq> {..<length (instruction_cells p)}
   \<and> length pu \<le> sum_list (map (\<lambda>i. length (prev (instruction_cells p ! i))) ex)"
proof (induction p V checked stack state arbitrary: state' ex pu rule: check_loop_log.induct)
  case (1 p V checked state)
  then show ?case by simp
next
  case (2 p V checked i stack state)
  show ?case
  proof (cases "i \<in> checked")
    case True
    with "2.IH"(1) "2.prems" show ?thesis by simp
  next
    case False
    with "2.prems" obtain c st m where c: "instruction_at p i = Some c"
      and sw: "switch_instruction V c state = Some (st, m)"
      by (auto split: option.splits)
    from c have i: "i < length (instruction_cells p)" "instruction_cells p ! i = c"
      by (auto simp: instruction_at_def split: if_splits)
    show ?thesis
    proof (cases m)
      case True
      with "2.prems" False c sw obtain ex' where
        rec: "check_loop_log p V (insert i checked) stack st = Some (state', ex', pu)"
        and ex: "ex = i # ex'"
        by auto
      from "2.IH"(3) [OF False c sw refl _ rec] True False i ex show ?thesis by auto
    next
      case m: False
      let ?st = "if entry p = Some i then check_entry_instruction p V st else st"
      from "2.prems" False c sw m obtain ex' pu' where
        rec: "check_loop_log p V (insert i checked) (push_multiple (prev c) stack) ?st
               = Some (state', ex', pu')"
        and ex: "ex = i # ex'" "pu = prev c @ pu'"
        by auto
      from "2.IH"(2) [OF False c sw refl _ rec] m False i ex show ?thesis by auto
    qed
  qed
qed

lemma sum_list_distinct_le:
  fixes f :: "nat \<Rightarrow> nat"
  assumes "distinct ex" and "set ex \<subseteq> {..<n}"
  shows "sum_list (map f ex) \<le> sum_list (map f [0..<n])"
proof -
  have "sum_list (map f ex) = sum f (set ex)"
    using assms(1) by (simp add: sum_list_distinct_conv_sum_set)
  also have "\<dots> \<le> sum f {..<n}"
    using assms(2) by (intro sum_mono2) auto
  also have "\<dots> = sum_list (map f [0..<n])"
    by (simp add: sum_list_distinct_conv_sum_set atLeast0LessThan)
  finally show ?thesis .
qed

lemma total_prev_eq:
  "total_prev p =
     sum_list (map (\<lambda>i. length (prev (instruction_cells p ! i))) [0..<length (instruction_cells p)])"
proof -
  have "map (\<lambda>i. length (prev (instruction_cells p ! i))) [0..<length (instruction_cells p)]
      = map (\<lambda>c. length (prev c)) (instruction_cells p)"
    by (rule nth_equalityI) simp_all
  then show ?thesis by (simp add: total_prev_def)
qed

lemma check_loop_log_defined:
  assumes "check_loop p V checked stack state = Some state'"
  shows "\<exists>ex pu. check_loop_log p V checked stack state = Some (state', ex, pu)"
proof -
  from assms check_loop_log_state [of p V checked stack state]
  obtain r where "check_loop_log p V checked stack state = Some r" "fst r = state'"
    by (auto simp: map_option_case split: option.splits)
  then show ?thesis by (cases r) auto
qed

text \<open>
  C6, as the claim states it, fails in its last part: an instruction can be pushed more
  than once. In \<open>diamond_procedure\<close> the search before the return instruction (cell 3)
  examines the cells 2, 0 and 1 once each and pushes the branch (cell 0) twice, once
  for each of the dummy instructions it leads to.
\<close>

theorem enqueued_once_counterexample:
  "find_initialization_state_log diamond_procedure 3 0
     = Some (\<lparr>can_be_initialized = True, can_be_uninitialized = False\<rparr>,
             [2, 0, 1], [1, 2, 0, 0])
   \<and> count_list [1, 2, 0, 0] (0 :: instr_ptr) = 2"
  by code_simp

text \<open>
  C6, amended. For every well-formed procedure (its instructions are finitely many: the
  cells of the arena) and every query, the backward search terminates with a state;
  an instruction is examined at most once; an instruction may be pushed several times,
  but the vector \<^verbatim>\<open>prev_\<close> of an instruction is pushed only when the instruction is
  examined, so that the pushes after the seeding are at most as many as there are
  \<^verbatim>\<open>prev_\<close> entries in the procedure. Loops in the graph make no difference.
\<close>

theorem search_terminates:
  assumes "well_formed p" and "I < length (instruction_cells p)"
  shows "\<exists>state examined_log pushed_log.
     find_initialization_state_before_instruction p I V = Some state
     \<and> find_initialization_state_log p I V = Some (state, examined_log, pushed_log)
     \<and> distinct examined_log
     \<and> length pushed_log \<le> length (prev (instruction_cells p ! I)) + total_prev p"
proof -
  from find_initialization_state_defined [OF assms] obtain state
    where s: "find_initialization_state_before_instruction p I V = Some state" ..
  from assms(2) have c: "instruction_at p I = Some (instruction_cells p ! I)"
    by (simp add: instruction_at_def)
  let ?c = "instruction_cells p ! I"
  let ?s0 = "\<lparr>can_be_initialized = False, can_be_uninitialized = False\<rparr>"
  let ?st = "if entry p = Some I then check_entry_instruction p V ?s0 else ?s0"
  from s c have "check_loop p V {} (push_multiple (prev ?c) []) ?st = Some state"
    by (simp add: find_initialization_state_before_instruction_def)
  from check_loop_log_defined [OF this] obtain ex pu
    where l: "check_loop_log p V {} (push_multiple (prev ?c) []) ?st = Some (state, ex, pu)"
    by blast
  from check_loop_log_examined [OF l] have d: "distinct ex"
    and sub: "set ex \<subseteq> {..<length (instruction_cells p)}"
    and len: "length pu \<le> sum_list (map (\<lambda>i. length (prev (instruction_cells p ! i))) ex)"
    by auto
  from sum_list_distinct_le [OF d sub, of "\<lambda>i. length (prev (instruction_cells p ! i))"] len
  have "length pu \<le> total_prev p"
    by (simp add: total_prev_eq)
  moreover from l c have "find_initialization_state_log p I V = Some (state, ex, prev ?c @ pu)"
    by (simp add: find_initialization_state_log_def)
  ultimately show ?thesis using s d by auto
qed

text \<open>
  In \<open>loop_procedure\<close>, whose graph has a loop, the search before the return
  instruction (cell 3) for \<open>v\<close> (1) examines the branch and the destruct instruction.
\<close>

theorem search_terminates_witness:
  "find_initialization_state_before_instruction loop_procedure 3 1
     = Some \<lparr>can_be_initialized = False, can_be_uninitialized = True\<rparr>
   \<and> find_initialization_state_log loop_procedure 3 1
     = Some (\<lparr>can_be_initialized = False, can_be_uninitialized = True\<rparr>, [0, 2], [0, 2])"
proof -
  have wf: "well_formed loop_procedure" by code_simp
  have lt: "3 < length (instruction_cells loop_procedure)" by code_simp
  have l: "find_initialization_state_log loop_procedure 3 1
     = Some (\<lparr>can_be_initialized = False, can_be_uninitialized = True\<rparr>, [0, 2], [0, 2])"
    by code_simp
  from search_terminates [OF wf lt, of 1] l show ?thesis by auto
qed

section \<open>One step of the backward search\<close>

lemma check_entry_instruction_keeps:
  "(can_be_initialized state \<longrightarrow> can_be_initialized (check_entry_instruction p V state))
   \<and> (can_be_uninitialized state \<longrightarrow> can_be_uninitialized (check_entry_instruction p V state))"
  by (simp add: check_entry_instruction_def)

lemma switch_instruction_keeps:
  "switch_instruction V c state = Some (st, m) \<Longrightarrow>
     (can_be_initialized state \<longrightarrow> can_be_initialized st)
     \<and> (can_be_uninitialized state \<longrightarrow> can_be_uninitialized st)"
  by (auto simp: switch_instruction_def
      split: MFDerived.splits option.splits bool.splits if_splits)

text \<open>A bit that is set stays set until the search returns.\<close>

lemma check_loop_keeps:
  "check_loop p V checked stack state = Some state' \<Longrightarrow>
     (can_be_initialized state \<longrightarrow> can_be_initialized state')
     \<and> (can_be_uninitialized state \<longrightarrow> can_be_uninitialized state')"
proof (induction p V checked stack state rule: check_loop.induct)
  case (1 p V checked state)
  then show ?case by simp
next
  case (2 p V checked i stack state)
  show ?case
  proof (cases "i \<in> checked")
    case True
    with 2 show ?thesis by simp
  next
    case False
    with "2.prems"(1) obtain c st m where c: "instruction_at p i = Some c"
      and sw: "switch_instruction V c state = Some (st, m)"
      by (auto split: option.splits)
    note st = switch_instruction_keeps [OF sw]
    show ?thesis
    proof (cases m)
      case True
      with "2.IH"(3) [OF False c sw refl] "2.prems"(1) False c sw st show ?thesis by simp
    next
      case m: False
      let ?st = "if entry p = Some i then check_entry_instruction p V st else st"
      have "(can_be_initialized st \<longrightarrow> can_be_initialized ?st)
          \<and> (can_be_uninitialized st \<longrightarrow> can_be_uninitialized ?st)"
        using check_entry_instruction_keeps [of st p V] by simp
      with "2.IH"(2) [OF False c sw refl] "2.prems"(1) False c sw m st show ?thesis by simp
    qed
  qed
qed

lemma check_loop_log_pop:
  assumes "instruction_at p P = Some ins" and "slots_allocated (derived ins)"
  shows "check_loop_log p V checked (P # stack) state =
     (if P \<in> checked then check_loop_log p V checked stack state
      else if call_with_output (derived ins) V then
        map_option (\<lambda>(s, ex, pl). (s, P # ex, pl))
          (check_loop_log p V (insert P checked) stack (state\<lparr>can_be_initialized := True\<rparr>))
      else if destruct_of (derived ins) V then
        map_option (\<lambda>(s, ex, pl). (s, P # ex, pl))
          (check_loop_log p V (insert P checked) stack (state\<lparr>can_be_uninitialized := True\<rparr>))
      else
        map_option (\<lambda>(s, ex, pl). (s, P # ex, prev ins @ pl))
          (check_loop_log p V (insert P checked) (push_multiple (prev ins) stack)
            (if entry p = Some P then check_entry_instruction p V state else state)))"
  using assms(1) by (simp add: switch_instruction_eq [OF assms(2)])

lemma check_loop_log_result:
  "check_loop_log p V checked stack state = Some (s, ex, pl) \<Longrightarrow>
   check_loop p V checked stack state = Some s"
  using check_loop_log_state [of p V checked stack state] by simp

text \<open>
  C3. Let the search of a well-formed procedure pop the instruction \<open>P\<close> from its
  worklist, for the target variable \<open>V\<close>. The search returns a state \<open>s\<close>, with a log
  \<open>ex\<close> of the instructions it examines from here on and a log \<open>pl\<close> of the instructions
  it pushes from here on, and a bit that is set when \<open>P\<close> is popped is set in \<open>s\<close>.
  If \<open>P\<close> is in the visited set already it is skipped: it is not examined and nothing
  is pushed for it. Otherwise \<open>P\<close> is the first instruction examined, and
  \<^item> if \<open>P\<close> is a call with \<open>V\<close> in an output slot, \<open>can_be_initialized\<close> is set, in
    \<open>s\<close> as well, and the predecessors of \<open>P\<close> are not pushed: the search goes on with
    the rest of the worklist, and what it pushes is all that is pushed;
  \<^item> else if \<open>P\<close> is a destruct instruction of \<open>V\<close>, \<open>can_be_uninitialized\<close> is set, in
    \<open>s\<close> as well, and the predecessors of \<open>P\<close> are not pushed;
  \<^item> in every other case the predecessors of \<open>P\<close> are pushed, first of all that is
    pushed, and the search goes on with the state it had, but for the entry state of
    \<open>V\<close>, which is folded in if \<open>P\<close> is the entry: then \<open>s\<close> has the bit of the entry
    state.
\<close>

theorem check_loop_pop:
  assumes "well_formed p" and "instruction_at p P = Some ins"
    and "\<forall>J\<in>set stack. J < length (instruction_cells p)"
  shows "\<exists>s ex pl.
      check_loop p V checked (P # stack) state = Some s
    \<and> check_loop_log p V checked (P # stack) state = Some (s, ex, pl)
    \<and> (can_be_initialized state \<longrightarrow> can_be_initialized s)
    \<and> (can_be_uninitialized state \<longrightarrow> can_be_uninitialized s)
    \<and> (if P \<in> checked then
         check_loop_log p V checked stack state = Some (s, ex, pl)
       else if call_with_output (derived ins) V then
         can_be_initialized s
         \<and> (\<exists>ex'. ex = P # ex'
              \<and> check_loop_log p V (insert P checked) stack
                    (state\<lparr>can_be_initialized := True\<rparr>) = Some (s, ex', pl))
       else if destruct_of (derived ins) V then
         can_be_uninitialized s
         \<and> (\<exists>ex'. ex = P # ex'
              \<and> check_loop_log p V (insert P checked) stack
                    (state\<lparr>can_be_uninitialized := True\<rparr>) = Some (s, ex', pl))
       else
         (entry p = Some P \<longrightarrow>
            (if caller_initialized_variable (params p) V then can_be_initialized s
             else can_be_uninitialized s))
         \<and> (\<exists>ex' pl'. ex = P # ex' \<and> pl = prev ins @ pl'
              \<and> check_loop_log p V (insert P checked) (push_multiple (prev ins) stack)
                    (if entry p = Some P then check_entry_instruction p V state else state)
                  = Some (s, ex', pl')))"
proof -
  from assms(2) have "P < length (instruction_cells p)"
    by (simp add: instruction_at_def split: if_splits)
  with assms(3) have "\<forall>J\<in>set (P # stack). J < length (instruction_cells p)" by simp
  from check_loop_defined [OF assms(1) this] obtain s
    where s: "check_loop p V checked (P # stack) state = Some s" by blast
  from check_loop_log_defined [OF s] obtain ex pl
    where l: "check_loop_log p V checked (P # stack) state = Some (s, ex, pl)" by blast
  note keeps = check_loop_keeps [OF s]
  note wf = well_formed_cell [OF assms(1,2)]
  note pop = check_loop_log_pop [OF assms(2) wf(1), of V checked stack state]
  have "if P \<in> checked then
         check_loop_log p V checked stack state = Some (s, ex, pl)
       else if call_with_output (derived ins) V then
         can_be_initialized s
         \<and> (\<exists>ex'. ex = P # ex'
              \<and> check_loop_log p V (insert P checked) stack
                    (state\<lparr>can_be_initialized := True\<rparr>) = Some (s, ex', pl))
       else if destruct_of (derived ins) V then
         can_be_uninitialized s
         \<and> (\<exists>ex'. ex = P # ex'
              \<and> check_loop_log p V (insert P checked) stack
                    (state\<lparr>can_be_uninitialized := True\<rparr>) = Some (s, ex', pl))
       else
         (entry p = Some P \<longrightarrow>
            (if caller_initialized_variable (params p) V then can_be_initialized s
             else can_be_uninitialized s))
         \<and> (\<exists>ex' pl'. ex = P # ex' \<and> pl = prev ins @ pl'
              \<and> check_loop_log p V (insert P checked) (push_multiple (prev ins) stack)
                    (if entry p = Some P then check_entry_instruction p V state else state)
                  = Some (s, ex', pl'))"
  proof (cases "P \<in> checked")
    case True
    with pop l show ?thesis by simp
  next
    case new: False
    show ?thesis
    proof (cases "call_with_output (derived ins) V")
      case True
      with new pop l obtain ex' where e: "ex = P # ex'"
        and c: "check_loop_log p V (insert P checked) stack
                  (state\<lparr>can_be_initialized := True\<rparr>) = Some (s, ex', pl)"
        by auto
      from check_loop_keeps [OF check_loop_log_result [OF c]] have "can_be_initialized s"
        by simp
      with new True e c show ?thesis by simp
    next
      case no_call: False
      show ?thesis
      proof (cases "destruct_of (derived ins) V")
        case True
        with new no_call pop l obtain ex' where e: "ex = P # ex'"
          and c: "check_loop_log p V (insert P checked) stack
                    (state\<lparr>can_be_uninitialized := True\<rparr>) = Some (s, ex', pl)"
          by auto
        from check_loop_keeps [OF check_loop_log_result [OF c]] have "can_be_uninitialized s"
          by simp
        with new no_call True e c show ?thesis by simp
      next
        case other: False
        let ?st = "if entry p = Some P then check_entry_instruction p V state else state"
        from new no_call other pop l obtain ex' pl' where e: "ex = P # ex'"
          and q: "pl = prev ins @ pl'"
          and c: "check_loop_log p V (insert P checked) (push_multiple (prev ins) stack) ?st
                    = Some (s, ex', pl')"
          by auto
        from check_loop_keeps [OF check_loop_log_result [OF c]]
        have "entry p = Some P \<longrightarrow>
            (if caller_initialized_variable (params p) V then can_be_initialized s
             else can_be_uninitialized s)"
          by (simp add: check_entry_instruction_def split: if_splits)
        with new no_call other e q c show ?thesis by simp
      qed
    qed
  qed
  with s l keeps show ?thesis by blast
qed

text \<open>
  In \<open>loop_procedure\<close>, from an empty state and with nothing else on the worklist.
  For the variable \<open>v\<close> (1): the call (cell 1) writes \<open>v\<close>, so the search returns with
  \<open>can_be_initialized\<close> and has not pushed the branch, the predecessor of the call; the
  destruct instruction (cell 2) destructs \<open>v\<close>, so the search returns with
  \<open>can_be_uninitialized\<close> and has not pushed the call. For the variable \<open>cond\<close> (0), a
  mutable parameter: the branch (cell 0) is the entry, so the entry state sets
  \<open>can_be_initialized\<close>, and its predecessor (cell 2) is pushed; the destruct
  instruction and the call do not write \<open>cond\<close>, so their predecessors are pushed, and
  the branch, popped again, is skipped. A branch already in the visited set is skipped
  at once.
\<close>

theorem check_loop_pop_witness:
  "check_loop loop_procedure 1 {} [1] \<lparr>can_be_initialized = False, can_be_uninitialized = False\<rparr>
     = Some \<lparr>can_be_initialized = True, can_be_uninitialized = False\<rparr>
   \<and> check_loop_log loop_procedure 1 {} [1]
       \<lparr>can_be_initialized = False, can_be_uninitialized = False\<rparr>
     = Some (\<lparr>can_be_initialized = True, can_be_uninitialized = False\<rparr>, [1], [])
   \<and> check_loop_log loop_procedure 1 {} [2]
       \<lparr>can_be_initialized = False, can_be_uninitialized = False\<rparr>
     = Some (\<lparr>can_be_initialized = False, can_be_uninitialized = True\<rparr>, [2], [])
   \<and> check_loop_log loop_procedure 0 {} [0]
       \<lparr>can_be_initialized = False, can_be_uninitialized = False\<rparr>
     = Some (\<lparr>can_be_initialized = True, can_be_uninitialized = False\<rparr>, [0, 2, 1], [2, 1, 0])
   \<and> check_loop_log loop_procedure 0 {0} [0]
       \<lparr>can_be_initialized = False, can_be_uninitialized = False\<rparr>
     = Some (\<lparr>can_be_initialized = False, can_be_uninitialized = False\<rparr>, [], [])"
proof -
  let ?s = "\<lparr>can_be_initialized = False, can_be_uninitialized = False\<rparr>"
  have wf: "well_formed loop_procedure" by code_simp
  have c0: "instruction_at loop_procedure 0 =
      Some \<lparr>prev = [2], derived = MFBranchInstruction (Some 0) (Some 1) (Some 3)\<rparr>"
    by (simp add: instruction_at_def loop_procedure_def)
  have c1: "instruction_at loop_procedure 1 =
      Some \<lparr>prev = [0], derived = MFCallInstruction F_out (Some 2) [Some 1]\<rparr>"
    by (simp add: instruction_at_def loop_procedure_def)
  have c2: "instruction_at loop_procedure 2 =
      Some \<lparr>prev = [1], derived = MFDestructInstruction (Some 1) (Some 0)\<rparr>"
    by (simp add: instruction_at_def loop_procedure_def)
  have e: "entry loop_procedure = Some 0"
    by (simp add: loop_procedure_def)
  have o: "call_with_output (MFCallInstruction F_out (Some 2) [Some 1]) 1"
    by code_simp
  have f: "check_entry_instruction loop_procedure 0 ?s
      = \<lparr>can_be_initialized = True, can_be_uninitialized = False\<rparr>"
    by code_simp
  have r: "check_loop_log loop_procedure 0 {0} [2]
        \<lparr>can_be_initialized = True, can_be_uninitialized = False\<rparr>
      = Some (\<lparr>can_be_initialized = True, can_be_uninitialized = False\<rparr>, [2, 1], [1, 0])"
    by code_simp
  have 1: "check_loop loop_procedure 1 {} [1] ?s
       = Some \<lparr>can_be_initialized = True, can_be_uninitialized = False\<rparr>
     \<and> check_loop_log loop_procedure 1 {} [1] ?s
       = Some (\<lparr>can_be_initialized = True, can_be_uninitialized = False\<rparr>, [1], [])"
    using check_loop_pop [OF wf c1, of "[]" 1 "{}" ?s]
    by (auto simp add: o simp del: check_loop.simps(2) check_loop_log.simps(2) One_nat_def
        call_with_output.simps)
  have 2: "check_loop_log loop_procedure 1 {} [2] ?s
       = Some (\<lparr>can_be_initialized = False, can_be_uninitialized = True\<rparr>, [2], [])"
    using check_loop_pop [OF wf c2, of "[]" 1 "{}" ?s]
    by (auto simp del: check_loop.simps(2) check_loop_log.simps(2) One_nat_def)
  have 0: "check_loop_log loop_procedure 0 {} [0] ?s
       = Some (\<lparr>can_be_initialized = True, can_be_uninitialized = False\<rparr>,
               [0, 2, 1], [2, 1, 0])"
    using check_loop_pop [OF wf c0, of "[]" 0 "{}" ?s]
    by (auto simp add: e f r push_multiple_def
        simp del: check_loop.simps(2) check_loop_log.simps(2))
  have 3: "check_loop_log loop_procedure 0 {0} [0] ?s = Some (?s, [], [])"
    using check_loop_pop [OF wf c0, of "[]" 0 "{0}" ?s]
    by (auto simp del: check_loop.simps(2) check_loop_log.simps(2))
  from 0 1 2 3 show ?thesis by blast
qed

section \<open>The container operations\<close>

lemma first_index_of_Some:
  "first_index_of x xs = Some i \<Longrightarrow> i < length xs \<and> xs ! i = x"
  by (induction xs arbitrary: i) (auto split: if_splits)

lemma first_index_of_None: "first_index_of x xs = None \<longleftrightarrow> x \<notin> set xs"
  by (induction xs) auto

lemma mset_butlast:
  assumes "xs \<noteq> []"
  shows "mset (butlast xs) = mset xs - {#last xs#}"
proof -
  have "mset xs = mset (butlast xs @ [last xs])"
    using assms by simp
  then show ?thesis by simp
qed

lemma mset_remove_and_reorder:
  assumes "i < length xs"
  shows "mset (remove_and_reorder i xs) = mset xs - {#xs ! i#}"
proof -
  let ?ys = "xs[i := last xs]"
  from assms have ne: "xs \<noteq> []" "?ys \<noteq> []" by auto
  have l: "last ?ys = last xs"
    using ne(1) by (simp add: last_list_update)
  have "mset (butlast ?ys) = mset ?ys - {#last ?ys#}"
    using ne(2) by (rule mset_butlast)
  also have "\<dots> = add_mset (last xs) (mset xs - {#xs ! i#}) - {#last xs#}"
    using assms by (simp add: l mset_update)
  finally show ?thesis by (simp add: remove_and_reorder_def)
qed

lemma remove_first_occurrence_and_reorder_Some:
  assumes "remove_first_occurrence_and_reorder x xs = Some ys"
  shows "mset ys = mset xs - {#x#}" and "x \<in> set xs"
proof -
  from assms obtain i where i: "first_index_of x xs = Some i" "ys = remove_and_reorder i xs"
    by (auto simp: remove_first_occurrence_and_reorder_def split: option.splits)
  from first_index_of_Some [OF i(1)] have "i < length xs" "xs ! i = x" by auto
  with mset_remove_and_reorder [of i xs] i(2) show "mset ys = mset xs - {#x#}" by simp
  from first_index_of_Some [OF i(1)] show "x \<in> set xs" by auto
qed

lemma remove_first_occurrence_and_reorder_defined:
  "x \<in> set xs \<Longrightarrow> \<exists>ys. remove_first_occurrence_and_reorder x xs = Some ys"
  by (cases "first_index_of x xs")
    (auto simp: remove_first_occurrence_and_reorder_def first_index_of_None)

lemma count_list_removed:
  assumes "remove_first_occurrence_and_reorder x xs = Some ys"
  shows "count_list ys y = count_list xs y - (if y = x then 1 else 0)"
proof -
  have "count_list ys y = count (mset ys) y" by (simp add: count_mset)
  also have "\<dots> = count (mset xs - {#x#}) y"
    by (simp add: remove_first_occurrence_and_reorder_Some(1) [OF assms])
  also have "\<dots> = count_list xs y - (if y = x then 1 else 0)"
    by (simp add: count_mset)
  finally show ?thesis .
qed

lemma instruction_at_update_instruction:
  "instruction_at (update_instruction p i f) j =
     (if j = i then map_option f (instruction_at p i) else instruction_at p j)"
  by (auto simp: instruction_at_def update_instruction_def)

lemma variable_at_update_instruction [simp]:
  "variable_at (update_instruction p i f) v = variable_at p v"
  by (simp add: variable_at_def update_instruction_def)

lemma instruction_at_update_variable [simp]:
  "instruction_at (update_variable p v f) j = instruction_at p j"
  by (simp add: instruction_at_def update_variable_def)

lemma variable_at_update_variable:
  "variable_at (update_variable p v f) w =
     (if w = v then map_option f (variable_at p v) else variable_at p w)"
  by (auto simp: variable_at_def update_variable_def)

text \<open>The effect of the container operations on the four multiplicities.\<close>

lemma prev_remove_effect:
  assumes "prev_remove p t this = Some p'"
  shows "successor_multiplicity p' I J = successor_multiplicity p I J"
    and "slot_multiplicity p' I V = slot_multiplicity p I V"
    and "users_multiplicity p' V I = users_multiplicity p V I"
    and "prev_multiplicity p' J I =
           prev_multiplicity p J I - (if J = t \<and> I = this then 1 else 0)"
    and "0 < prev_multiplicity p t this"
    and "map_option derived (instruction_at p' I) = map_option derived (instruction_at p I)"
proof -
  from assms obtain c ys where c: "instruction_at p t = Some c"
    and ys: "remove_first_occurrence_and_reorder this (prev c) = Some ys"
    and p': "p' = update_instruction p t (\<lambda>c. c\<lparr>prev := ys\<rparr>)"
    by (auto simp: prev_remove_def split: option.splits)
  show "successor_multiplicity p' I J = successor_multiplicity p I J"
    using c by (simp add: p' successor_multiplicity_def instruction_at_update_instruction)
  show "slot_multiplicity p' I V = slot_multiplicity p I V"
    using c by (simp add: p' slot_multiplicity_def instruction_at_update_instruction)
  show "users_multiplicity p' V I = users_multiplicity p V I"
    by (simp add: p' users_multiplicity_def)
  show "prev_multiplicity p' J I =
           prev_multiplicity p J I - (if J = t \<and> I = this then 1 else 0)"
    using c count_list_removed [OF ys, of I]
    by (auto simp: p' prev_multiplicity_def instruction_at_update_instruction)
  show "0 < prev_multiplicity p t this"
    using c remove_first_occurrence_and_reorder_Some(2) [OF ys]
    by (simp add: prev_multiplicity_def count_list_pos)
  show "map_option derived (instruction_at p' I) = map_option derived (instruction_at p I)"
    using c by (simp add: p' instruction_at_update_instruction)
qed

lemma prev_append_effect:
  assumes "prev_append p t this = Some p'"
  shows "successor_multiplicity p' I J = successor_multiplicity p I J"
    and "slot_multiplicity p' I V = slot_multiplicity p I V"
    and "users_multiplicity p' V I = users_multiplicity p V I"
    and "prev_multiplicity p' J I =
           prev_multiplicity p J I + (if J = t \<and> I = this then 1 else 0)"
    and "map_option derived (instruction_at p' I) = map_option derived (instruction_at p I)"
proof -
  from assms obtain c where c: "instruction_at p t = Some c"
    and p': "p' = update_instruction p t (\<lambda>c. c\<lparr>prev := vector_append this (prev c)\<rparr>)"
    by (auto simp: prev_append_def split: option.splits)
  show "successor_multiplicity p' I J = successor_multiplicity p I J"
    using c by (simp add: p' successor_multiplicity_def instruction_at_update_instruction)
  show "slot_multiplicity p' I V = slot_multiplicity p I V"
    using c by (simp add: p' slot_multiplicity_def instruction_at_update_instruction)
  show "users_multiplicity p' V I = users_multiplicity p V I"
    by (simp add: p' users_multiplicity_def)
  show "prev_multiplicity p' J I =
           prev_multiplicity p J I + (if J = t \<and> I = this then 1 else 0)"
    using c
    by (simp add: p' prev_multiplicity_def instruction_at_update_instruction vector_append_def)
  show "map_option derived (instruction_at p' I) = map_option derived (instruction_at p I)"
    using c by (simp add: p' instruction_at_update_instruction)
qed

lemma users_remove_effect:
  assumes "users_remove p t this = Some p'"
  shows "successor_multiplicity p' I J = successor_multiplicity p I J"
    and "slot_multiplicity p' I V = slot_multiplicity p I V"
    and "prev_multiplicity p' J I = prev_multiplicity p J I"
    and "users_multiplicity p' V I =
           users_multiplicity p V I - (if V = t \<and> I = this then 1 else 0)"
    and "0 < users_multiplicity p t this"
    and "instruction_at p' I = instruction_at p I"
    and "map_option var_data_type (variable_at p' V) = map_option var_data_type (variable_at p V)"
proof -
  from assms obtain c ys where c: "variable_at p t = Some c"
    and ys: "remove_first_occurrence_and_reorder this (users c) = Some ys"
    and p': "p' = update_variable p t (\<lambda>c. c\<lparr>users := ys\<rparr>)"
    by (auto simp: users_remove_def split: option.splits)
  show "successor_multiplicity p' I J = successor_multiplicity p I J"
    by (simp add: p' successor_multiplicity_def)
  show "slot_multiplicity p' I V = slot_multiplicity p I V"
    by (simp add: p' slot_multiplicity_def)
  show "prev_multiplicity p' J I = prev_multiplicity p J I"
    by (simp add: p' prev_multiplicity_def)
  show "users_multiplicity p' V I =
           users_multiplicity p V I - (if V = t \<and> I = this then 1 else 0)"
    using c count_list_removed [OF ys, of I]
    by (auto simp: p' users_multiplicity_def variable_at_update_variable)
  show "0 < users_multiplicity p t this"
    using c remove_first_occurrence_and_reorder_Some(2) [OF ys]
    by (simp add: users_multiplicity_def count_list_pos)
  show "instruction_at p' I = instruction_at p I"
    by (simp add: p')
  show "map_option var_data_type (variable_at p' V) = map_option var_data_type (variable_at p V)"
    using c by (simp add: p' variable_at_update_variable)
qed

lemma users_append_effect:
  assumes "users_append p t this = Some p'"
  shows "successor_multiplicity p' I J = successor_multiplicity p I J"
    and "slot_multiplicity p' I V = slot_multiplicity p I V"
    and "prev_multiplicity p' J I = prev_multiplicity p J I"
    and "users_multiplicity p' V I =
           users_multiplicity p V I + (if V = t \<and> I = this then 1 else 0)"
    and "instruction_at p' I = instruction_at p I"
proof -
  from assms obtain c where c: "variable_at p t = Some c"
    and p': "p' = update_variable p t (\<lambda>c. c\<lparr>users := vector_append this (users c)\<rparr>)"
    by (auto simp: users_append_def split: option.splits)
  show "successor_multiplicity p' I J = successor_multiplicity p I J"
    by (simp add: p' successor_multiplicity_def)
  show "slot_multiplicity p' I V = slot_multiplicity p I V"
    by (simp add: p' slot_multiplicity_def)
  show "prev_multiplicity p' J I = prev_multiplicity p J I"
    by (simp add: p' prev_multiplicity_def)
  show "users_multiplicity p' V I =
           users_multiplicity p V I + (if V = t \<and> I = this then 1 else 0)"
    using c
    by (simp add: p' users_multiplicity_def variable_at_update_variable vector_append_def)
  show "instruction_at p' I = instruction_at p I"
    by (simp add: p')
qed

section \<open>The edge mutations keep the invariants\<close>

lemma rewire_prev_effect:
  assumes "rewire_prev p this old new = Some p'"
  shows "successor_multiplicity p' I J = successor_multiplicity p I J"
    and "slot_multiplicity p' I V = slot_multiplicity p I V"
    and "users_multiplicity p' V I = users_multiplicity p V I"
    and "prev_multiplicity p' J I =
           prev_multiplicity p J I - (if old = Some J \<and> I = this then 1 else 0)
             + (if new = Some J \<and> I = this then 1 else 0)"
    and "old = Some t \<Longrightarrow> 0 < prev_multiplicity p t this"
    and "map_option derived (instruction_at p' I) = map_option derived (instruction_at p I)"
proof -
  from assms obtain p1 where
    1: "(case old of None \<Rightarrow> Some p | Some target \<Rightarrow> prev_remove p target this) = Some p1"
    and 2: "(case new of None \<Rightarrow> Some p1 | Some target \<Rightarrow> prev_append p1 target this) = Some p'"
    by (auto simp: rewire_prev_def split: option.splits)
  have a: "successor_multiplicity p1 I J = successor_multiplicity p I J
      \<and> slot_multiplicity p1 I V = slot_multiplicity p I V
      \<and> users_multiplicity p1 V I = users_multiplicity p V I
      \<and> prev_multiplicity p1 J I =
           prev_multiplicity p J I - (if old = Some J \<and> I = this then 1 else 0)
      \<and> (\<forall>t. old = Some t \<longrightarrow> 0 < prev_multiplicity p t this)
      \<and> map_option derived (instruction_at p1 I) = map_option derived (instruction_at p I)"
    for I J V
  proof (cases old)
    case None
    with 1 show ?thesis by simp
  next
    case (Some t)
    with 1 have r: "prev_remove p t this = Some p1" by simp
    from prev_remove_effect [OF r] Some show ?thesis by auto
  qed
  have b: "successor_multiplicity p' I J = successor_multiplicity p1 I J
      \<and> slot_multiplicity p' I V = slot_multiplicity p1 I V
      \<and> users_multiplicity p' V I = users_multiplicity p1 V I
      \<and> prev_multiplicity p' J I =
           prev_multiplicity p1 J I + (if new = Some J \<and> I = this then 1 else 0)
      \<and> map_option derived (instruction_at p' I) = map_option derived (instruction_at p1 I)"
    for I J V
  proof (cases new)
    case None
    with 2 show ?thesis by simp
  next
    case (Some t)
    with 2 have r: "prev_append p1 t this = Some p'" by simp
    from prev_append_effect [OF r] Some show ?thesis by auto
  qed
  from a b show "successor_multiplicity p' I J = successor_multiplicity p I J" by simp
  from a b show "slot_multiplicity p' I V = slot_multiplicity p I V" by simp
  from a b show "users_multiplicity p' V I = users_multiplicity p V I" by simp
  from a [of I J V] b [of I J V] show "prev_multiplicity p' J I =
           prev_multiplicity p J I - (if old = Some J \<and> I = this then 1 else 0)
             + (if new = Some J \<and> I = this then 1 else 0)" by simp
  from a show "old = Some t \<Longrightarrow> 0 < prev_multiplicity p t this" by simp
  from a [of I] b [of I]
  show "map_option derived (instruction_at p' I) = map_option derived (instruction_at p I)"
    by simp
qed

lemma rewire_users_effect:
  assumes "rewire_users p this old new = Some p'"
  shows "successor_multiplicity p' I J = successor_multiplicity p I J"
    and "slot_multiplicity p' I V = slot_multiplicity p I V"
    and "prev_multiplicity p' J I = prev_multiplicity p J I"
    and "users_multiplicity p' V I =
           users_multiplicity p V I - (if old = Some V \<and> I = this then 1 else 0)
             + (if new = Some V \<and> I = this then 1 else 0)"
    and "old = Some t \<Longrightarrow> 0 < users_multiplicity p t this"
    and "instruction_at p' I = instruction_at p I"
proof -
  from assms obtain p1 where
    1: "(case old of None \<Rightarrow> Some p | Some target \<Rightarrow> users_remove p target this) = Some p1"
    and 2: "(case new of None \<Rightarrow> Some p1 | Some target \<Rightarrow> users_append p1 target this) = Some p'"
    by (auto simp: rewire_users_def split: option.splits)
  have a: "successor_multiplicity p1 I J = successor_multiplicity p I J
      \<and> slot_multiplicity p1 I V = slot_multiplicity p I V
      \<and> prev_multiplicity p1 J I = prev_multiplicity p J I
      \<and> users_multiplicity p1 V I =
           users_multiplicity p V I - (if old = Some V \<and> I = this then 1 else 0)
      \<and> (\<forall>t. old = Some t \<longrightarrow> 0 < users_multiplicity p t this)
      \<and> instruction_at p1 I = instruction_at p I"
    for I J V
  proof (cases old)
    case None
    with 1 show ?thesis by simp
  next
    case (Some t)
    with 1 have r: "users_remove p t this = Some p1" by simp
    from users_remove_effect [OF r] Some show ?thesis by auto
  qed
  have b: "successor_multiplicity p' I J = successor_multiplicity p1 I J
      \<and> slot_multiplicity p' I V = slot_multiplicity p1 I V
      \<and> prev_multiplicity p' J I = prev_multiplicity p1 J I
      \<and> users_multiplicity p' V I =
           users_multiplicity p1 V I + (if new = Some V \<and> I = this then 1 else 0)
      \<and> instruction_at p' I = instruction_at p1 I"
    for I J V
  proof (cases new)
    case None
    with 2 show ?thesis by simp
  next
    case (Some t)
    with 2 have r: "users_append p1 t this = Some p'" by simp
    from users_append_effect [OF r] Some show ?thesis by auto
  qed
  from a b show "successor_multiplicity p' I J = successor_multiplicity p I J" by simp
  from a b show "slot_multiplicity p' I V = slot_multiplicity p I V" by simp
  from a b show "prev_multiplicity p' J I = prev_multiplicity p J I" by simp
  from a [of I J V] b [of I J V] show "users_multiplicity p' V I =
           users_multiplicity p V I - (if old = Some V \<and> I = this then 1 else 0)
             + (if new = Some V \<and> I = this then 1 else 0)" by simp
  from a show "old = Some t \<Longrightarrow> 0 < users_multiplicity p t this" by simp
  from a [of I] b [of I] show "instruction_at p' I = instruction_at p I" by simp
qed

lemma update_derived_effect:
  fixes d :: MFDerived
  assumes "instruction_at p this = Some c"
  defines "p' \<equiv> update_instruction p this (\<lambda>c. c\<lparr>derived := d\<rparr>)"
  shows "successor_multiplicity p' I J =
           (if I = this then count_list (successor_slots d) (Some J)
            else successor_multiplicity p I J)"
    and "slot_multiplicity p' I V =
           (if I = this then count_list (variable_slots d) (Some V)
            else slot_multiplicity p I V)"
    and "prev_multiplicity p' J I = prev_multiplicity p J I"
    and "users_multiplicity p' V I = users_multiplicity p V I"
  using assms(1)
  by (auto simp: p'_def successor_multiplicity_def slot_multiplicity_def prev_multiplicity_def
      users_multiplicity_def instruction_at_update_instruction split: option.splits)

lemma successor_setter_agree:
  assumes agree: "multiplicities_agree p"
    and c: "instruction_at p this = Some c"
    and rw: "rewire_prev p this old new = Some p'"
    and succ: "\<And>J. count_list (successor_slots d) (Some J) + (if old = Some J then 1 else 0)
                 = count_list (successor_slots (derived c)) (Some J)
                   + (if new = Some J then 1 else 0)"
    and vars: "variable_slots d = variable_slots (derived c)"
  shows "multiplicities_agree (update_instruction p' this (\<lambda>c. c\<lparr>derived := d\<rparr>))"
proof -
  note e = rewire_prev_effect [OF rw]
  from e(6) [of this] c obtain c' where c': "instruction_at p' this = Some c'"
    by (cases "instruction_at p' this") auto
  note u = update_derived_effect [OF c', of d]
  from c have sm: "successor_multiplicity p this J = count_list (successor_slots (derived c)) (Some J)"
    for J by (simp add: successor_multiplicity_def)
  from c have vm: "slot_multiplicity p this V = count_list (variable_slots (derived c)) (Some V)"
    for V by (simp add: slot_multiplicity_def)
  from agree have ag: "successor_multiplicity p I J = prev_multiplicity p J I"
    "slot_multiplicity p I V = users_multiplicity p V I" for I J V
    by (simp_all add: multiplicities_agree_def)
  have "successor_multiplicity (update_instruction p' this (\<lambda>c. c\<lparr>derived := d\<rparr>)) I J
      = prev_multiplicity (update_instruction p' this (\<lambda>c. c\<lparr>derived := d\<rparr>)) J I" for I J
  proof (cases "I = this")
    case True
    let ?p = "update_instruction p' this (\<lambda>c. c\<lparr>derived := d\<rparr>)"
    have pos: "old = Some J \<Longrightarrow> 0 < count_list (successor_slots (derived c)) (Some J)"
      using e(5) [of J] ag(1) [of this J] sm [of J] by simp
    have L: "successor_multiplicity ?p I J = count_list (successor_slots d) (Some J)"
      using u(1) [of I J] True by simp
    have R: "prev_multiplicity ?p J I =
        count_list (successor_slots (derived c)) (Some J) - (if old = Some J then 1 else 0)
          + (if new = Some J then 1 else 0)"
      using u(3) [of J I] e(4) [of J I] True ag(1) [of this J] sm [of J] by simp
    from succ [of J] pos show ?thesis
      unfolding L R by (auto split: if_splits)
  next
    case False
    then show ?thesis
      unfolding u e by (simp add: ag)
  qed
  moreover
  have "slot_multiplicity (update_instruction p' this (\<lambda>c. c\<lparr>derived := d\<rparr>)) I V
      = users_multiplicity (update_instruction p' this (\<lambda>c. c\<lparr>derived := d\<rparr>)) V I" for I V
    unfolding u e by (simp add: vars vm [symmetric] ag)
  ultimately show ?thesis by (simp add: multiplicities_agree_def)
qed

lemma variable_setter_agree:
  assumes agree: "multiplicities_agree p"
    and c: "instruction_at p this = Some c"
    and rw: "rewire_users p this old new = Some p'"
    and vars: "\<And>V. count_list (variable_slots d) (Some V) + (if old = Some V then 1 else 0)
                 = count_list (variable_slots (derived c)) (Some V)
                   + (if new = Some V then 1 else 0)"
    and succ: "successor_slots d = successor_slots (derived c)"
  shows "multiplicities_agree (update_instruction p' this (\<lambda>c. c\<lparr>derived := d\<rparr>))"
proof -
  note e = rewire_users_effect [OF rw]
  from e(6) [of this] c have c': "instruction_at p' this = Some c" by simp
  note u = update_derived_effect [OF c', of d]
  from c have sm: "successor_multiplicity p this J = count_list (successor_slots (derived c)) (Some J)"
    for J by (simp add: successor_multiplicity_def)
  from c have vm: "slot_multiplicity p this V = count_list (variable_slots (derived c)) (Some V)"
    for V by (simp add: slot_multiplicity_def)
  from agree have ag: "successor_multiplicity p I J = prev_multiplicity p J I"
    "slot_multiplicity p I V = users_multiplicity p V I" for I J V
    by (simp_all add: multiplicities_agree_def)
  have "slot_multiplicity (update_instruction p' this (\<lambda>c. c\<lparr>derived := d\<rparr>)) I V
      = users_multiplicity (update_instruction p' this (\<lambda>c. c\<lparr>derived := d\<rparr>)) V I" for I V
  proof (cases "I = this")
    case True
    let ?p = "update_instruction p' this (\<lambda>c. c\<lparr>derived := d\<rparr>)"
    have pos: "old = Some V \<Longrightarrow> 0 < count_list (variable_slots (derived c)) (Some V)"
      using e(5) [of V] ag(2) [of this V] vm [of V] by simp
    have L: "slot_multiplicity ?p I V = count_list (variable_slots d) (Some V)"
      using u(2) [of I V] True by simp
    have R: "users_multiplicity ?p V I =
        count_list (variable_slots (derived c)) (Some V) - (if old = Some V then 1 else 0)
          + (if new = Some V then 1 else 0)"
      using u(4) [of V I] e(4) [of V I] True ag(2) [of this V] vm [of V] by simp
    from vars [of V] pos show ?thesis
      unfolding L R by (auto split: if_splits)
  next
    case False
    then show ?thesis
      unfolding u e by (simp add: ag)
  qed
  moreover
  have "successor_multiplicity (update_instruction p' this (\<lambda>c. c\<lparr>derived := d\<rparr>)) I J
      = prev_multiplicity (update_instruction p' this (\<lambda>c. c\<lparr>derived := d\<rparr>)) J I" for I J
    unfolding u e by (simp add: succ sm [symmetric] ag)
  ultimately show ?thesis by (simp add: multiplicities_agree_def)
qed

lemma count_list_update:
  "i < length xs \<Longrightarrow>
   count_list (xs[i := v]) x + (if xs ! i = x then 1 else 0)
     = count_list xs x + (if v = x then 1 else 0)"
proof (induction xs arbitrary: i)
  case Nil
  then show ?case by simp
next
  case (Cons a xs)
  show ?case
  proof (cases i)
    case 0
    then show ?thesis by simp
  next
    case (Suc k)
    with Cons.prems have "k < length xs" by simp
    from Cons.IH [OF this] Suc show ?thesis by (auto split: if_splits)
  qed
qed

lemma call_set_next_agree:
  assumes "multiplicities_agree p" and "MFCallInstruction_set_next p this t = Some p'"
  shows "multiplicities_agree p'"
proof -
  from assms(2) obtain fn nxt ps q where
    c: "call_instruction_at p this = Some (fn, nxt, ps)"
    and rw: "rewire_prev p this nxt t = Some q"
    and p': "p' = update_instruction q this (\<lambda>c. c\<lparr>derived := MFCallInstruction fn t ps\<rparr>)"
    by (auto simp: MFCallInstruction_set_next_def split: option.splits)
  from c obtain cell where cell: "instruction_at p this = Some cell"
    "derived cell = MFCallInstruction fn nxt ps"
    by (auto simp: call_instruction_at_cell)
  show ?thesis
    unfolding p'
    by (rule successor_setter_agree [OF assms(1) cell(1) rw]) (simp_all add: cell(2))
qed

lemma destruct_set_next_agree:
  assumes "multiplicities_agree p" and "MFDestructInstruction_set_next p this t = Some p'"
  shows "multiplicities_agree p'"
proof -
  from assms(2) obtain v nxt q where
    c: "destruct_instruction_at p this = Some (v, nxt)"
    and rw: "rewire_prev p this nxt t = Some q"
    and p': "p' = update_instruction q this (\<lambda>c. c\<lparr>derived := MFDestructInstruction v t\<rparr>)"
    by (auto simp: MFDestructInstruction_set_next_def split: option.splits)
  from c obtain cell where cell: "instruction_at p this = Some cell"
    "derived cell = MFDestructInstruction v nxt"
    by (auto simp: destruct_instruction_at_cell)
  show ?thesis
    unfolding p'
    by (rule successor_setter_agree [OF assms(1) cell(1) rw]) (simp_all add: cell(2))
qed

lemma dummy_set_next_agree:
  assumes "multiplicities_agree p" and "MFDummyInstruction_set_next p this t = Some p'"
  shows "multiplicities_agree p'"
proof -
  from assms(2) obtain nxt q where
    c: "dummy_instruction_at p this = Some nxt"
    and rw: "rewire_prev p this nxt t = Some q"
    and p': "p' = update_instruction q this (\<lambda>c. c\<lparr>derived := MFDummyInstruction t\<rparr>)"
    by (auto simp: MFDummyInstruction_set_next_def split: option.splits)
  from c obtain cell where cell: "instruction_at p this = Some cell"
    "derived cell = MFDummyInstruction nxt"
    by (auto simp: dummy_instruction_at_cell)
  show ?thesis
    unfolding p'
    by (rule successor_setter_agree [OF assms(1) cell(1) rw]) (simp_all add: cell(2))
qed

lemma set_branch_true_agree:
  assumes "multiplicities_agree p" and "MFBranchInstruction_set_branch_true p this t = Some p'"
  shows "multiplicities_agree p'"
proof -
  from assms(2) obtain v bt bf q where
    c: "branch_instruction_at p this = Some (v, bt, bf)"
    and rw: "rewire_prev p this bt t = Some q"
    and p': "p' = update_instruction q this (\<lambda>c. c\<lparr>derived := MFBranchInstruction v t bf\<rparr>)"
    by (auto simp: MFBranchInstruction_set_branch_true_def split: option.splits)
  from c obtain cell where cell: "instruction_at p this = Some cell"
    "derived cell = MFBranchInstruction v bt bf"
    by (auto simp: branch_instruction_at_cell)
  show ?thesis
    unfolding p'
    by (rule successor_setter_agree [OF assms(1) cell(1) rw]) (simp_all add: cell(2))
qed

lemma set_branch_false_agree:
  assumes "multiplicities_agree p" and "MFBranchInstruction_set_branch_false p this t = Some p'"
  shows "multiplicities_agree p'"
proof -
  from assms(2) obtain v bt bf q where
    c: "branch_instruction_at p this = Some (v, bt, bf)"
    and rw: "rewire_prev p this bf t = Some q"
    and p': "p' = update_instruction q this (\<lambda>c. c\<lparr>derived := MFBranchInstruction v bt t\<rparr>)"
    by (auto simp: MFBranchInstruction_set_branch_false_def split: option.splits)
  from c obtain cell where cell: "instruction_at p this = Some cell"
    "derived cell = MFBranchInstruction v bt bf"
    by (auto simp: branch_instruction_at_cell)
  show ?thesis
    unfolding p'
    by (rule successor_setter_agree [OF assms(1) cell(1) rw]) (simp_all add: cell(2))
qed

lemma set_condition_agree:
  assumes "multiplicities_agree p" and "MFBranchInstruction_set_condition p this v = Some p'"
  shows "multiplicities_agree p'"
proof -
  from assms(2) obtain old bt bf q where
    c: "branch_instruction_at p this = Some (old, bt, bf)"
    and rw: "rewire_users p this old v = Some q"
    and p': "p' = update_instruction q this (\<lambda>c. c\<lparr>derived := MFBranchInstruction v bt bf\<rparr>)"
    by (auto simp: MFBranchInstruction_set_condition_def split: option.splits)
  from c obtain cell where cell: "instruction_at p this = Some cell"
    "derived cell = MFBranchInstruction old bt bf"
    by (auto simp: branch_instruction_at_cell)
  show ?thesis
    unfolding p'
    by (rule variable_setter_agree [OF assms(1) cell(1) rw]) (simp_all add: cell(2))
qed

lemma set_variable_agree:
  assumes "multiplicities_agree p" and "MFDestructInstruction_set_variable p this v = Some p'"
  shows "multiplicities_agree p'"
proof -
  from assms(2) obtain old nxt q where
    c: "destruct_instruction_at p this = Some (old, nxt)"
    and rw: "rewire_users p this old v = Some q"
    and p': "p' = update_instruction q this (\<lambda>c. c\<lparr>derived := MFDestructInstruction v nxt\<rparr>)"
    by (auto simp: MFDestructInstruction_set_variable_def split: option.splits)
  from c obtain cell where cell: "instruction_at p this = Some cell"
    "derived cell = MFDestructInstruction old nxt"
    by (auto simp: destruct_instruction_at_cell)
  show ?thesis
    unfolding p'
    by (rule variable_setter_agree [OF assms(1) cell(1) rw]) (simp_all add: cell(2))
qed

lemma set_param_variable_agree:
  assumes "multiplicities_agree p"
    and "MFCallInstruction_set_param_variable p this i v = Some p'"
  shows "multiplicities_agree p'"
proof -
  from assms(2) obtain fn nxt ps q where
    c: "call_instruction_at p this = Some (fn, nxt, ps)"
    and i: "i < length ps"
    and rw: "rewire_users p this (ps ! i) v = Some q"
    and p': "p' = update_instruction q this
               (\<lambda>c. c\<lparr>derived := MFCallInstruction fn nxt (ps[i := v])\<rparr>)"
    by (auto simp: MFCallInstruction_set_param_variable_def split: option.splits if_splits)
  from c obtain cell where cell: "instruction_at p this = Some cell"
    "derived cell = MFCallInstruction fn nxt ps"
    by (auto simp: call_instruction_at_cell)
  show ?thesis
    unfolding p'
    by (rule variable_setter_agree [OF assms(1) cell(1) rw])
      (simp_all add: cell(2) count_list_update [OF i])
qed

lemma set_params_loop_agree:
  "multiplicities_agree p \<Longrightarrow> set_params_loop p this vs is = Some p' \<Longrightarrow>
   multiplicities_agree p'"
proof (induction "is" arbitrary: p)
  case Nil
  then show ?case by simp
next
  case (Cons i "is")
  from Cons.prems(2) obtain q where
    q: "MFCallInstruction_set_param_variable p this i (vs ! i) = Some q"
    and r: "set_params_loop q this vs is = Some p'"
    by (auto split: option.splits)
  from Cons.IH [OF set_param_variable_agree [OF Cons.prems(1) q] r] show ?case .
qed

lemma set_params_agree:
  assumes "multiplicities_agree p" and "MFCallInstruction_set_params p this vs = Some p'"
  shows "multiplicities_agree p'"
proof -
  from assms(2) have "set_params_loop p this vs [0..<length vs] = Some p'"
    by (auto simp: MFCallInstruction_set_params_def split: option.splits if_splits)
  from set_params_loop_agree [OF assms(1) this] show ?thesis .
qed

lemma slot_multiplicity_pos:
  "0 < slot_multiplicity p I V \<longleftrightarrow>
     (\<exists>c. instruction_at p I = Some c \<and> Some V \<in> set (variable_slots (derived c)))"
  by (auto simp: slot_multiplicity_def count_list_pos split: option.splits)

lemma users_multiplicity_pos:
  "0 < users_multiplicity p V I \<longleftrightarrow> (\<exists>c. variable_at p V = Some c \<and> I \<in> set (users c))"
  by (auto simp: users_multiplicity_def count_list_pos split: option.splits)

lemma variable_at_cells:
  "(\<exists>v. variable_at p v = Some c) \<longleftrightarrow> c \<in> set (variable_cells p)"
  by (auto simp: variable_at_def in_set_conv_nth)

lemma users_consistent_iff:
  "users_consistent p \<longleftrightarrow> (\<forall>I V. slot_multiplicity p I V = users_multiplicity p V I)"
proof
  assume uc: "users_consistent p"
  let ?n = "length (instruction_cells p)" and ?m = "length (variable_cells p)"
  from uc have eq: "slot_multiplicity p I V = users_multiplicity p V I"
    if "I < ?n" "V < ?m" for I V
    using that by (simp add: users_consistent_def list_all_iff)
  from uc have sl: "V < ?m"
    if "I < ?n" "Some V \<in> set (variable_slots (derived (instruction_cells p ! I)))" for I V
    using that by (fastforce simp: users_consistent_def list_all_iff)
  from uc have us: "I < ?n" if "V < ?m" "I \<in> set (users (variable_cells p ! V))" for I V
    using that by (fastforce simp: users_consistent_def list_all_iff)
  show "\<forall>I V. slot_multiplicity p I V = users_multiplicity p V I"
  proof (intro allI)
    fix I V
    consider "I < ?n" "V < ?m" | "\<not> I < ?n" | "I < ?n" "\<not> V < ?m" by blast
    then show "slot_multiplicity p I V = users_multiplicity p V I"
    proof cases
      case 1
      then show ?thesis by (rule eq)
    next
      case 2
      then have "I \<notin> set (users (variable_cells p ! V))" if "V < ?m"
        using us [OF that] by blast
      with 2 show ?thesis
        by (simp add: slot_multiplicity_def users_multiplicity_def instruction_at_def
            variable_at_def count_list_0_iff)
    next
      case 3
      then have "Some V \<notin> set (variable_slots (derived (instruction_cells p ! I)))"
        using sl [of I V] by blast
      with 3 show ?thesis
        by (simp add: slot_multiplicity_def users_multiplicity_def instruction_at_def
            variable_at_def count_list_0_iff)
    qed
  qed
next
  assume a: "\<forall>I V. slot_multiplicity p I V = users_multiplicity p V I"
  let ?n = "length (instruction_cells p)" and ?m = "length (variable_cells p)"
  have "V < ?m" if "c \<in> set (instruction_cells p)" "Some V \<in> set (variable_slots (derived c))"
    for c V
  proof -
    from that(1) obtain I where "instruction_at p I = Some c"
      using instruction_at_cells [of p c] by blast
    with that(2) have "0 < slot_multiplicity p I V" by (auto simp: slot_multiplicity_pos)
    with a have "0 < users_multiplicity p V I" by simp
    then show ?thesis
      by (auto simp: users_multiplicity_def variable_at_def split: if_splits)
  qed
  moreover have "I < ?n" if "c \<in> set (variable_cells p)" "I \<in> set (users c)" for c I
  proof -
    from that(1) obtain V where "variable_at p V = Some c"
      using variable_at_cells [of p c] by blast
    with that(2) have "0 < users_multiplicity p V I" by (auto simp: users_multiplicity_pos)
    with a have "0 < slot_multiplicity p I V" by simp
    then show ?thesis
      by (auto simp: slot_multiplicity_def instruction_at_def split: if_splits)
  qed
  ultimately show "users_consistent p"
    using a by (auto simp: users_consistent_def list_all_iff split: option.splits)
qed

lemma multiplicities_agree_iff:
  "multiplicities_agree p \<longleftrightarrow> edges_consistent p \<and> users_consistent p"
  by (simp add: multiplicities_agree_def edges_consistent_iff users_consistent_iff)

section \<open>Re-setting a slot\<close>

lemma prev_multiset_same:
  assumes "\<And>I. prev_multiplicity p' J I = prev_multiplicity p J I"
    and "instruction_at p' J = None \<longleftrightarrow> instruction_at p J = None"
  shows "prev_multiset p' J = prev_multiset p J"
proof (cases "instruction_at p J")
  case None
  with assms(2) show ?thesis by (simp add: prev_multiset_def)
next
  case (Some c)
  with assms(2) obtain c' where c': "instruction_at p' J = Some c'" by auto
  from assms(1) Some c' have "count_list (prev c') I = count_list (prev c) I" for I
    by (simp add: prev_multiplicity_def)
  then have "mset (prev c') = mset (prev c)"
    by (intro multiset_eqI) (simp add: count_mset)
  with Some c' show ?thesis by (simp add: prev_multiset_def)
qed

lemma users_multiset_same:
  assumes "\<And>I. users_multiplicity p' V I = users_multiplicity p V I"
    and "variable_at p' V = None \<longleftrightarrow> variable_at p V = None"
  shows "users_multiset p' V = users_multiset p V"
proof (cases "variable_at p V")
  case None
  with assms(2) show ?thesis by (simp add: users_multiset_def)
next
  case (Some c)
  with assms(2) obtain c' where c': "variable_at p' V = Some c'" by auto
  from assms(1) Some c' have "count_list (users c') I = count_list (users c) I" for I
    by (simp add: users_multiplicity_def)
  then have "mset (users c') = mset (users c)"
    by (intro multiset_eqI) (simp add: count_mset)
  with Some c' show ?thesis by (simp add: users_multiset_def)
qed

lemma rewire_prev_same:
  assumes "rewire_prev p this t t = Some q" and "instruction_at p this = Some c"
  shows "prev_multiset (update_instruction q this (\<lambda>c. c\<lparr>derived := d\<rparr>)) = prev_multiset p"
proof
  fix J
  note e = rewire_prev_effect [OF assms(1)]
  from e(6) [of this] assms(2) obtain c' where c': "instruction_at q this = Some c'"
    by (cases "instruction_at q this") auto
  note u = update_derived_effect [OF c', of d]
  show "prev_multiset (update_instruction q this (\<lambda>c. c\<lparr>derived := d\<rparr>)) J = prev_multiset p J"
  proof (rule prev_multiset_same)
    fix I
    show "prev_multiplicity (update_instruction q this (\<lambda>c. c\<lparr>derived := d\<rparr>)) J I
        = prev_multiplicity p J I"
      using e(5) [of J] unfolding u e(4) by auto
  next
    from e(6) [of J] have "instruction_at q J = None \<longleftrightarrow> instruction_at p J = None"
      by (metis option.map_disc_iff)
    then show "instruction_at (update_instruction q this (\<lambda>c. c\<lparr>derived := d\<rparr>)) J = None
        \<longleftrightarrow> instruction_at p J = None"
      by (auto simp: instruction_at_update_instruction)
  qed
qed

lemma variable_at_None_users_remove:
  "users_remove p t this = Some q \<Longrightarrow> variable_at q V = None \<longleftrightarrow> variable_at p V = None"
  by (auto simp: users_remove_def variable_at_update_variable split: option.splits if_splits)

lemma variable_at_None_users_append:
  "users_append p t this = Some q \<Longrightarrow> variable_at q V = None \<longleftrightarrow> variable_at p V = None"
  by (auto simp: users_append_def variable_at_update_variable split: option.splits if_splits)

lemma variable_at_None_rewire_users:
  assumes "rewire_users p this old new = Some q"
  shows "variable_at q V = None \<longleftrightarrow> variable_at p V = None"
proof -
  from assms obtain p1 where
    1: "(case old of None \<Rightarrow> Some p | Some target \<Rightarrow> users_remove p target this) = Some p1"
    and 2: "(case new of None \<Rightarrow> Some p1 | Some target \<Rightarrow> users_append p1 target this) = Some q"
    by (auto simp: rewire_users_def split: option.splits)
  from 1 have "variable_at p1 V = None \<longleftrightarrow> variable_at p V = None"
    by (cases old) (auto simp: variable_at_None_users_remove)
  moreover from 2 have "variable_at q V = None \<longleftrightarrow> variable_at p1 V = None"
    by (cases new) (auto simp: variable_at_None_users_append)
  ultimately show ?thesis by simp
qed

lemma rewire_users_same:
  assumes "rewire_users p this t t = Some q"
  shows "users_multiset (update_instruction q this f) = users_multiset p"
proof
  fix V
  note e = rewire_users_effect [OF assms(1)]
  show "users_multiset (update_instruction q this f) V = users_multiset p V"
  proof (rule users_multiset_same)
    fix I
    show "users_multiplicity (update_instruction q this f) V I = users_multiplicity p V I"
      using e(5) [of V] e(4) [of V I] by (auto simp: users_multiplicity_def)
  next
    show "variable_at (update_instruction q this f) V = None \<longleftrightarrow> variable_at p V = None"
      using variable_at_None_rewire_users [OF assms] by simp
  qed
qed

lemma call_set_next_same:
  assumes "MFCallInstruction_set_next p this t = Some p'"
    and "call_instruction_at p this = Some (fn, t, ps)"
  shows "prev_multiset p' = prev_multiset p"
proof -
  from assms obtain q d where rw: "rewire_prev p this t t = Some q"
    and p': "p' = update_instruction q this (\<lambda>c. c\<lparr>derived := d\<rparr>)"
    by (auto simp: MFCallInstruction_set_next_def split: option.splits)
  from assms(2) obtain c where "instruction_at p this = Some c"
    by (auto simp: call_instruction_at_cell)
  from rewire_prev_same [OF rw this] show ?thesis unfolding p' .
qed

lemma destruct_set_next_same:
  assumes "MFDestructInstruction_set_next p this t = Some p'"
    and "destruct_instruction_at p this = Some (v, t)"
  shows "prev_multiset p' = prev_multiset p"
proof -
  from assms obtain q d where rw: "rewire_prev p this t t = Some q"
    and p': "p' = update_instruction q this (\<lambda>c. c\<lparr>derived := d\<rparr>)"
    by (auto simp: MFDestructInstruction_set_next_def split: option.splits)
  from assms(2) obtain c where "instruction_at p this = Some c"
    by (auto simp: destruct_instruction_at_cell)
  from rewire_prev_same [OF rw this] show ?thesis unfolding p' .
qed

lemma dummy_set_next_same:
  assumes "MFDummyInstruction_set_next p this t = Some p'"
    and "dummy_instruction_at p this = Some t"
  shows "prev_multiset p' = prev_multiset p"
proof -
  from assms obtain q d where rw: "rewire_prev p this t t = Some q"
    and p': "p' = update_instruction q this (\<lambda>c. c\<lparr>derived := d\<rparr>)"
    by (auto simp: MFDummyInstruction_set_next_def split: option.splits)
  from assms(2) obtain c where "instruction_at p this = Some c"
    by (auto simp: dummy_instruction_at_cell)
  from rewire_prev_same [OF rw this] show ?thesis unfolding p' .
qed

lemma set_branch_true_same:
  assumes "MFBranchInstruction_set_branch_true p this t = Some p'"
    and "branch_instruction_at p this = Some (v, t, bf)"
  shows "prev_multiset p' = prev_multiset p"
proof -
  from assms obtain q d where rw: "rewire_prev p this t t = Some q"
    and p': "p' = update_instruction q this (\<lambda>c. c\<lparr>derived := d\<rparr>)"
    by (auto simp: MFBranchInstruction_set_branch_true_def split: option.splits)
  from assms(2) obtain c where "instruction_at p this = Some c"
    by (auto simp: branch_instruction_at_cell)
  from rewire_prev_same [OF rw this] show ?thesis unfolding p' .
qed

lemma set_branch_false_same:
  assumes "MFBranchInstruction_set_branch_false p this t = Some p'"
    and "branch_instruction_at p this = Some (v, bt, t)"
  shows "prev_multiset p' = prev_multiset p"
proof -
  from assms obtain q d where rw: "rewire_prev p this t t = Some q"
    and p': "p' = update_instruction q this (\<lambda>c. c\<lparr>derived := d\<rparr>)"
    by (auto simp: MFBranchInstruction_set_branch_false_def split: option.splits)
  from assms(2) obtain c where "instruction_at p this = Some c"
    by (auto simp: branch_instruction_at_cell)
  from rewire_prev_same [OF rw this] show ?thesis unfolding p' .
qed

lemma set_param_variable_same:
  assumes "MFCallInstruction_set_param_variable p this i v = Some p'"
    and "call_instruction_at p this = Some (fn, nxt, ps)" and "ps ! i = v"
  shows "users_multiset p' = users_multiset p"
    and "call_instruction_at p' this = Some (fn, nxt, ps)"
proof -
  from assms(3) have upd: "ps[i := v] = ps" by auto
  from assms(1,2) obtain q where rw0: "rewire_users p this (ps ! i) v = Some q"
    and p'0: "p' = update_instruction q this
        (\<lambda>c. c\<lparr>derived := MFCallInstruction fn nxt (ps[i := v])\<rparr>)"
    by (auto simp: MFCallInstruction_set_param_variable_def split: option.splits if_splits)
  from rw0 assms(3) have rw: "rewire_users p this v v = Some q" by simp
  from p'0 upd
  have p': "p' = update_instruction q this (\<lambda>c. c\<lparr>derived := MFCallInstruction fn nxt ps\<rparr>)"
    by simp
  from rewire_users_same [OF rw] show "users_multiset p' = users_multiset p" unfolding p' .
  from assms(2) obtain c where "instruction_at p this = Some c"
    by (auto simp: call_instruction_at_cell)
  with rewire_users_effect(6) [OF rw, of this] have "instruction_at q this = Some c" by simp
  then show "call_instruction_at p' this = Some (fn, nxt, ps)"
    by (simp add: p' call_instruction_at_def instruction_at_update_instruction)
qed

lemma set_params_loop_same:
  "call_instruction_at p this = Some (fn, nxt, ps) \<Longrightarrow>
   set_params_loop p this ps is = Some p' \<Longrightarrow> users_multiset p' = users_multiset p"
proof (induction "is" arbitrary: p)
  case Nil
  then show ?case by simp
next
  case (Cons i "is")
  from Cons.prems(2) obtain q where
    q: "MFCallInstruction_set_param_variable p this i (ps ! i) = Some q"
    and r: "set_params_loop q this ps is = Some p'"
    by (auto split: option.splits)
  note s = set_param_variable_same [OF q Cons.prems(1) refl]
  from Cons.IH [OF s(2) r] s(1) show ?case by simp
qed

lemma set_params_same:
  assumes "MFCallInstruction_set_params p this ps = Some p'"
    and "call_instruction_at p this = Some (fn, nxt, ps)"
  shows "users_multiset p' = users_multiset p"
proof -
  from assms have "set_params_loop p this ps [0..<length ps] = Some p'"
    by (auto simp: MFCallInstruction_set_params_def split: option.splits if_splits)
  from set_params_loop_same [OF assms(2) this] show ?thesis .
qed

lemma set_condition_same:
  assumes "MFBranchInstruction_set_condition p this v = Some p'"
    and "branch_instruction_at p this = Some (v, bt, bf)"
  shows "users_multiset p' = users_multiset p"
proof -
  from assms obtain q f where rw: "rewire_users p this v v = Some q"
    and p': "p' = update_instruction q this f"
    by (auto simp: MFBranchInstruction_set_condition_def split: option.splits)
  from rewire_users_same [OF rw] show ?thesis unfolding p' .
qed

lemma set_variable_same:
  assumes "MFDestructInstruction_set_variable p this v = Some p'"
    and "destruct_instruction_at p this = Some (v, nxt)"
  shows "users_multiset p' = users_multiset p"
proof -
  from assms obtain q f where rw: "rewire_users p this v v = Some q"
    and p': "p' = update_instruction q this f"
    by (auto simp: MFDestructInstruction_set_variable_def split: option.splits)
  from rewire_users_same [OF rw] show ?thesis unfolding p' .
qed

text \<open>
  C10. Every edge mutation that sets a slot to the value it holds already leaves the
  multisets unchanged: \<^verbatim>\<open>set_next\<close>, \<^verbatim>\<open>set_branch_true\<close> and \<^verbatim>\<open>set_branch_false\<close> with the
  current successor leave the \<^verbatim>\<open>prev_\<close> vector of every instruction the same as a
  multiset, and \<^verbatim>\<open>set_param_variable\<close>, \<^verbatim>\<open>set_params\<close>, \<^verbatim>\<open>set_condition\<close> and
  \<^verbatim>\<open>set_variable\<close> with the current variables leave the \<^verbatim>\<open>users_\<close> vector of every
  variable the same as a multiset.
\<close>

theorem resetting_keeps_multisets:
  "(MFCallInstruction_set_next p this t = Some p'
      \<and> call_instruction_at p this = Some (fn, t, ps) \<longrightarrow> prev_multiset p' = prev_multiset p)
   \<and> (MFDestructInstruction_set_next p this t = Some p'
      \<and> destruct_instruction_at p this = Some (v, t) \<longrightarrow> prev_multiset p' = prev_multiset p)
   \<and> (MFDummyInstruction_set_next p this t = Some p'
      \<and> dummy_instruction_at p this = Some t \<longrightarrow> prev_multiset p' = prev_multiset p)
   \<and> (MFBranchInstruction_set_branch_true p this t = Some p'
      \<and> branch_instruction_at p this = Some (v, t, bf) \<longrightarrow> prev_multiset p' = prev_multiset p)
   \<and> (MFBranchInstruction_set_branch_false p this t = Some p'
      \<and> branch_instruction_at p this = Some (v, bt, t) \<longrightarrow> prev_multiset p' = prev_multiset p)
   \<and> (MFCallInstruction_set_param_variable p this i v = Some p'
      \<and> call_instruction_at p this = Some (fn, nxt, ps) \<and> ps ! i = v
        \<longrightarrow> users_multiset p' = users_multiset p)
   \<and> (MFCallInstruction_set_params p this ps = Some p'
      \<and> call_instruction_at p this = Some (fn, nxt, ps)
        \<longrightarrow> users_multiset p' = users_multiset p)
   \<and> (MFBranchInstruction_set_condition p this v = Some p'
      \<and> branch_instruction_at p this = Some (v, bt, bf)
        \<longrightarrow> users_multiset p' = users_multiset p)
   \<and> (MFDestructInstruction_set_variable p this v = Some p'
      \<and> destruct_instruction_at p this = Some (v, nxt)
        \<longrightarrow> users_multiset p' = users_multiset p)"
  using call_set_next_same destruct_set_next_same dummy_set_next_same set_branch_true_same
    set_branch_false_same set_param_variable_same(1) set_params_same set_condition_same
    set_variable_same
  by (intro conjI impI; elim conjE) blast+

text \<open>
  In \<open>diamond_procedure\<close>, setting the successor of the first dummy instruction (cell 1)
  to the return instruction (cell 3) again: the \<^verbatim>\<open>prev_\<close> vector of the return
  instruction goes from \<open>[1, 2]\<close> to \<open>[2, 1]\<close>, the same multiset.
\<close>

theorem resetting_keeps_multisets_witness:
  "map_option (\<lambda>p'. prev_multiset p' 3) (MFDummyInstruction_set_next diamond_procedure 1 (Some 3))
     = Some (Some {#1, 2#})
   \<and> map_option (\<lambda>p'. map_option prev (instruction_at p' 3))
       (MFDummyInstruction_set_next diamond_procedure 1 (Some 3))
     = Some (Some [2, 1])"
proof -
  have "MFDummyInstruction_set_next diamond_procedure 1 (Some 3) \<noteq> None" by code_simp
  then obtain p' where p': "MFDummyInstruction_set_next diamond_procedure 1 (Some 3) = Some p'"
    by auto
  have d: "dummy_instruction_at diamond_procedure 1 = Some (Some 3)" by code_simp
  have m: "prev_multiset diamond_procedure 3 = Some {#1, 2#}"
    by (simp add: prev_multiset_def instruction_at_def diamond_procedure_def)
  from resetting_keeps_multisets [of diamond_procedure 1 "Some 3" p'] p' d m
  have 1: "map_option (\<lambda>p'. prev_multiset p' 3)
      (MFDummyInstruction_set_next diamond_procedure 1 (Some 3)) = Some (Some {#1, 2#})"
    by simp
  have 2: "map_option (\<lambda>p'. map_option prev (instruction_at p' 3))
       (MFDummyInstruction_set_next diamond_procedure 1 (Some 3))
     = Some (Some [2, 1])" by code_simp
  from 1 2 show ?thesis by blast
qed

section \<open>Procedures constructed with the builder\<close>

lemma all_slots_allocated_iff:
  "all_slots_allocated p \<longleftrightarrow>
     (\<forall>I c. instruction_at p I = Some c \<longrightarrow> slots_allocated (derived c))"
  unfolding all_slots_allocated_def list_all_iff
  using instruction_at_cells [of p] by blast

lemma update_derived_allocated:
  assumes "all_slots_allocated q" and "slots_allocated d"
  shows "all_slots_allocated (update_instruction q this (\<lambda>c. c\<lparr>derived := d\<rparr>))"
  using assms
  by (auto simp: all_slots_allocated_iff instruction_at_update_instruction split: if_splits)

lemma derived_same_allocated:
  assumes "\<And>I. map_option derived (instruction_at q I) = map_option derived (instruction_at p I)"
    and "all_slots_allocated p"
  shows "all_slots_allocated q"
  unfolding all_slots_allocated_iff
proof (intro allI impI)
  fix I c assume "instruction_at q I = Some c"
  with assms(1) [of I] obtain c' where c': "instruction_at p I = Some c'" "derived c' = derived c"
    by (cases "instruction_at p I") auto
  from assms(2) c'(1) have "slots_allocated (derived c')"
    unfolding all_slots_allocated_iff by blast
  with c'(2) show "slots_allocated (derived c)" by simp
qed

lemma successor_setter_allocated:
  assumes "all_slots_allocated p" and "rewire_prev p this old new = Some q"
    and "slots_allocated d"
  shows "all_slots_allocated (update_instruction q this (\<lambda>c. c\<lparr>derived := d\<rparr>))"
proof -
  have "all_slots_allocated q"
    by (rule derived_same_allocated [OF rewire_prev_effect(6) [OF assms(2)] assms(1)])
  from update_derived_allocated [OF this assms(3)] show ?thesis .
qed

lemma variable_setter_allocated:
  assumes "all_slots_allocated p" and "rewire_users p this old new = Some q"
    and "slots_allocated d"
  shows "all_slots_allocated (update_instruction q this (\<lambda>c. c\<lparr>derived := d\<rparr>))"
proof -
  have "all_slots_allocated q"
    using rewire_users_effect(6) [OF assms(2)] assms(1) by (simp add: all_slots_allocated_iff)
  from update_derived_allocated [OF this assms(3)] show ?thesis .
qed

lemma call_cell_allocated:
  assumes "all_slots_allocated p" and "call_instruction_at p this = Some (fn, nxt, ps)"
  shows "length ps = param_amount fn"
proof -
  from assms(2) obtain c where c: "instruction_at p this = Some c"
    "derived c = MFCallInstruction fn nxt ps"
    by (auto simp: call_instruction_at_cell)
  from assms(1) c(1) have "slots_allocated (derived c)"
    unfolding all_slots_allocated_iff by blast
  with c(2) show ?thesis by simp
qed

lemma call_set_next_allocated:
  assumes "all_slots_allocated p" and "MFCallInstruction_set_next p this t = Some p'"
  shows "all_slots_allocated p'"
proof -
  from assms(2) obtain fn nxt ps q where
    c: "call_instruction_at p this = Some (fn, nxt, ps)"
    and rw: "rewire_prev p this nxt t = Some q"
    and p': "p' = update_instruction q this (\<lambda>c. c\<lparr>derived := MFCallInstruction fn t ps\<rparr>)"
    by (auto simp: MFCallInstruction_set_next_def split: option.splits)
  show ?thesis
    unfolding p' using call_cell_allocated [OF assms(1) c]
    by (intro successor_setter_allocated [OF assms(1) rw]) simp
qed

lemma destruct_set_next_allocated:
  assumes "all_slots_allocated p" and "MFDestructInstruction_set_next p this t = Some p'"
  shows "all_slots_allocated p'"
proof -
  from assms(2) obtain v nxt q where
    rw: "rewire_prev p this nxt t = Some q"
    and p': "p' = update_instruction q this (\<lambda>c. c\<lparr>derived := MFDestructInstruction v t\<rparr>)"
    by (auto simp: MFDestructInstruction_set_next_def split: option.splits)
  show ?thesis
    unfolding p' by (intro successor_setter_allocated [OF assms(1) rw]) simp
qed

lemma dummy_set_next_allocated:
  assumes "all_slots_allocated p" and "MFDummyInstruction_set_next p this t = Some p'"
  shows "all_slots_allocated p'"
proof -
  from assms(2) obtain nxt q where
    rw: "rewire_prev p this nxt t = Some q"
    and p': "p' = update_instruction q this (\<lambda>c. c\<lparr>derived := MFDummyInstruction t\<rparr>)"
    by (auto simp: MFDummyInstruction_set_next_def split: option.splits)
  show ?thesis
    unfolding p' by (intro successor_setter_allocated [OF assms(1) rw]) simp
qed

lemma set_branch_true_allocated:
  assumes "all_slots_allocated p" and "MFBranchInstruction_set_branch_true p this t = Some p'"
  shows "all_slots_allocated p'"
proof -
  from assms(2) obtain v bt bf q where
    rw: "rewire_prev p this bt t = Some q"
    and p': "p' = update_instruction q this (\<lambda>c. c\<lparr>derived := MFBranchInstruction v t bf\<rparr>)"
    by (auto simp: MFBranchInstruction_set_branch_true_def split: option.splits)
  show ?thesis
    unfolding p' by (intro successor_setter_allocated [OF assms(1) rw]) simp
qed

lemma set_branch_false_allocated:
  assumes "all_slots_allocated p" and "MFBranchInstruction_set_branch_false p this t = Some p'"
  shows "all_slots_allocated p'"
proof -
  from assms(2) obtain v bt bf q where
    rw: "rewire_prev p this bf t = Some q"
    and p': "p' = update_instruction q this (\<lambda>c. c\<lparr>derived := MFBranchInstruction v bt t\<rparr>)"
    by (auto simp: MFBranchInstruction_set_branch_false_def split: option.splits)
  show ?thesis
    unfolding p' by (intro successor_setter_allocated [OF assms(1) rw]) simp
qed

lemma set_param_variable_allocated:
  assumes "all_slots_allocated p"
    and "MFCallInstruction_set_param_variable p this i v = Some p'"
  shows "all_slots_allocated p'"
proof -
  from assms(2) obtain fn nxt ps q where
    c: "call_instruction_at p this = Some (fn, nxt, ps)"
    and rw: "rewire_users p this (ps ! i) v = Some q"
    and p': "p' = update_instruction q this
               (\<lambda>c. c\<lparr>derived := MFCallInstruction fn nxt (ps[i := v])\<rparr>)"
    by (auto simp: MFCallInstruction_set_param_variable_def split: option.splits if_splits)
  show ?thesis
    unfolding p' using call_cell_allocated [OF assms(1) c]
    by (intro variable_setter_allocated [OF assms(1) rw]) simp
qed

lemma set_condition_allocated:
  assumes "all_slots_allocated p" and "MFBranchInstruction_set_condition p this v = Some p'"
  shows "all_slots_allocated p'"
proof -
  from assms(2) obtain old bt bf q where
    rw: "rewire_users p this old v = Some q"
    and p': "p' = update_instruction q this (\<lambda>c. c\<lparr>derived := MFBranchInstruction v bt bf\<rparr>)"
    by (auto simp: MFBranchInstruction_set_condition_def split: option.splits)
  show ?thesis
    unfolding p' by (intro variable_setter_allocated [OF assms(1) rw]) simp
qed

lemma set_variable_allocated:
  assumes "all_slots_allocated p" and "MFDestructInstruction_set_variable p this v = Some p'"
  shows "all_slots_allocated p'"
proof -
  from assms(2) obtain old nxt q where
    rw: "rewire_users p this old v = Some q"
    and p': "p' = update_instruction q this (\<lambda>c. c\<lparr>derived := MFDestructInstruction v nxt\<rparr>)"
    by (auto simp: MFDestructInstruction_set_variable_def split: option.splits)
  show ?thesis
    unfolding p' by (intro variable_setter_allocated [OF assms(1) rw]) simp
qed

lemma set_params_loop_allocated:
  "all_slots_allocated p \<Longrightarrow> set_params_loop p this vs is = Some p' \<Longrightarrow>
   all_slots_allocated p'"
proof (induction "is" arbitrary: p)
  case Nil
  then show ?case by simp
next
  case (Cons i "is")
  from Cons.prems(2) obtain q where
    q: "MFCallInstruction_set_param_variable p this i (vs ! i) = Some q"
    and r: "set_params_loop q this vs is = Some p'"
    by (auto split: option.splits)
  from Cons.IH [OF set_param_variable_allocated [OF Cons.prems(1) q] r] show ?case .
qed

lemma set_params_allocated:
  assumes "all_slots_allocated p" and "MFCallInstruction_set_params p this vs = Some p'"
  shows "all_slots_allocated p'"
proof -
  from assms(2) have "set_params_loop p this vs [0..<length vs] = Some p'"
    by (auto simp: MFCallInstruction_set_params_def split: option.splits if_splits)
  from set_params_loop_allocated [OF assms(1) this] show ?thesis .
qed

text \<open>The factory methods.\<close>

lemma instruction_at_new_instruction:
  "instruction_at (fst (new_instruction p d)) I =
     (if I = length (instruction_cells p) then Some \<lparr>prev = [], derived = d\<rparr>
      else instruction_at p I)"
  by (auto simp: new_instruction_def instruction_at_def nth_append)

lemma new_instruction_agree:
  assumes "multiplicities_agree p" and "\<forall>s\<in>set (successor_slots d). s = None"
    and "\<forall>s\<in>set (variable_slots d). s = None"
  shows "multiplicities_agree (fst (new_instruction p d))"
proof -
  let ?n = "length (instruction_cells p)" and ?q = "fst (new_instruction p d)"
  have none: "instruction_at p ?n = None" by (simp add: instruction_at_def)
  from assms(1) have ag: "successor_multiplicity p I J = prev_multiplicity p J I"
    "slot_multiplicity p I V = users_multiplicity p V I" for I J V
    by (simp_all add: multiplicities_agree_def)
  have z1: "successor_multiplicity p I ?n = 0" for I
    using ag(1) [of I ?n] none by (simp add: prev_multiplicity_def)
  have z2: "users_multiplicity p V ?n = 0" for V
    using ag(2) [of ?n V] none by (simp add: slot_multiplicity_def)
  have c0: "count_list (successor_slots d) (Some J) = 0" for J
    using assms(2) by (auto simp: count_list_0_iff)
  have c1: "count_list (variable_slots d) (Some V) = 0" for V
    using assms(3) by (auto simp: count_list_0_iff)
  have s: "successor_multiplicity ?q I J =
      (if I = ?n then 0 else successor_multiplicity p I J)" for I J
    by (simp add: successor_multiplicity_def instruction_at_new_instruction c0)
  have pr: "prev_multiplicity ?q J I = (if J = ?n then 0 else prev_multiplicity p J I)" for I J
    by (simp add: prev_multiplicity_def instruction_at_new_instruction)
  have sl: "slot_multiplicity ?q I V = (if I = ?n then 0 else slot_multiplicity p I V)" for I V
    by (simp add: slot_multiplicity_def instruction_at_new_instruction c1)
  have us: "users_multiplicity ?q V I = users_multiplicity p V I" for I V
    by (simp add: users_multiplicity_def variable_at_def new_instruction_def)
  have zn: "successor_multiplicity p ?n J = 0" for J
    using none by (simp add: successor_multiplicity_def)
  have "successor_multiplicity ?q I J = prev_multiplicity ?q J I" for I J
    using z1 [of I] zn [of J] ag(1) [of I J] ag(1) [of ?n J]
    by (auto simp: s pr)
  moreover have "slot_multiplicity ?q I V = users_multiplicity ?q V I" for I V
    using z2 [of V] ag(2) [of I V] by (auto simp: sl us)
  ultimately show ?thesis by (simp add: multiplicities_agree_def)
qed

lemma new_instruction_allocated:
  "all_slots_allocated p \<Longrightarrow> slots_allocated d \<Longrightarrow>
   all_slots_allocated (fst (new_instruction p d))"
  by (simp add: all_slots_allocated_def new_instruction_def)

lemma new_variable_agree:
  assumes "multiplicities_agree p"
  shows "multiplicities_agree (fst (new_variable p dt name))"
proof -
  let ?m = "length (variable_cells p)" and ?q = "fst (new_variable p dt name)"
  have none: "variable_at p ?m = None" by (simp add: variable_at_def)
  from assms(1) have ag: "successor_multiplicity p I J = prev_multiplicity p J I"
    "slot_multiplicity p I V = users_multiplicity p V I" for I J V
    by (simp_all add: multiplicities_agree_def)
  have z: "slot_multiplicity p I ?m = 0" for I
    using ag(2) [of I ?m] none by (simp add: users_multiplicity_def)
  have i: "instruction_at ?q I = instruction_at p I" for I
    by (simp add: instruction_at_def new_variable_def)
  have us: "users_multiplicity ?q V I = (if V = ?m then 0 else users_multiplicity p V I)" for I V
    by (auto simp: users_multiplicity_def variable_at_def new_variable_def nth_append)
  have "slot_multiplicity ?q I V = users_multiplicity ?q V I" for I V
    using z [of I] ag(2) [of I V] by (auto simp: us slot_multiplicity_def i)
  moreover have "successor_multiplicity ?q I J = prev_multiplicity ?q J I" for I J
    using ag(1) [of I J] by (simp add: successor_multiplicity_def prev_multiplicity_def i)
  ultimately show ?thesis by (simp add: multiplicities_agree_def)
qed

lemma fields_agree:
  assumes "instruction_cells q = instruction_cells p" and "variable_cells q = variable_cells p"
  shows "multiplicities_agree q \<longleftrightarrow> multiplicities_agree p"
    and "all_slots_allocated q \<longleftrightarrow> all_slots_allocated p"
  using assms
  by (simp_all add: multiplicities_agree_def successor_multiplicity_def prev_multiplicity_def
      slot_multiplicity_def users_multiplicity_def instruction_at_def variable_at_def
      all_slots_allocated_def)

text \<open>
  Every procedure that the builder constructs has its parameter spans allocated and
  satisfies the two invariants; it is well-formed.
\<close>

lemma built_invariants:
  "built p \<Longrightarrow> all_slots_allocated p \<and> multiplicities_agree p"
proof (induction rule: built.induct)
  case built_empty
  show ?case
    by (simp add: all_slots_allocated_def multiplicities_agree_def empty_procedure_def
        successor_multiplicity_def prev_multiplicity_def slot_multiplicity_def
        users_multiplicity_def instruction_at_def variable_at_def)
next
  case (built_new_variable p dt name)
  then show ?case
    by (simp add: new_variable_agree) (simp add: all_slots_allocated_def new_variable_def)
next
  case (built_new_call_instruction p fn)
  then show ?case
    by (simp add: new_call_instruction_def new_instruction_agree new_instruction_allocated)
next
  case (built_new_branch_instruction p)
  then show ?case
    by (simp add: new_branch_instruction_def new_instruction_agree new_instruction_allocated)
next
  case (built_new_destruct_instruction p)
  then show ?case
    by (simp add: new_destruct_instruction_def new_instruction_agree new_instruction_allocated)
next
  case (built_new_dummy_instruction p)
  then show ?case
    by (simp add: new_dummy_instruction_def new_instruction_agree new_instruction_allocated)
next
  case (built_new_return_instruction p)
  then show ?case
    by (simp add: new_return_instruction_def new_instruction_agree new_instruction_allocated)
next
  case (built_add_parameter p interface_ty variable)
  then show ?case
    using fields_agree [of "add_parameter p interface_ty variable" p]
    by (simp add: add_parameter_def)
next
  case (built_set_entry p e)
  then show ?case
    using fields_agree [of "set_entry p e" p] by (simp add: set_entry_def)
next
  case (built_call_set_next p this instruction p')
  then show ?case
    using call_set_next_agree call_set_next_allocated by blast
next
  case (built_set_param_variable p this param_index variable p')
  then show ?case
    using set_param_variable_agree set_param_variable_allocated by blast
next
  case (built_set_params p this vs p')
  then show ?case
    using set_params_agree set_params_allocated by blast
next
  case (built_set_condition p this variable p')
  then show ?case
    using set_condition_agree set_condition_allocated by blast
next
  case (built_set_branch_true p this instruction p')
  then show ?case
    using set_branch_true_agree set_branch_true_allocated by blast
next
  case (built_set_branch_false p this instruction p')
  then show ?case
    using set_branch_false_agree set_branch_false_allocated by blast
next
  case (built_set_variable p this variable p')
  then show ?case
    using set_variable_agree set_variable_allocated by blast
next
  case (built_destruct_set_next p this instruction p')
  then show ?case
    using destruct_set_next_agree destruct_set_next_allocated by blast
next
  case (built_dummy_set_next p this instruction p')
  then show ?case
    using dummy_set_next_agree dummy_set_next_allocated by blast
qed

lemma built_well_formed:
  assumes "built p"
  shows "well_formed p" and "edges_consistent p" and "users_consistent p"
proof -
  from built_invariants [OF assms] have a: "all_slots_allocated p" "multiplicities_agree p"
    by simp_all
  from a(2) show e: "edges_consistent p" and "users_consistent p"
    by (simp_all add: multiplicities_agree_iff)
  from a(1) e show "well_formed p"
    by (auto simp: well_formed_def all_slots_allocated_def edges_consistent_def list_all_iff)
qed

lemma rewire_prev_defined:
  assumes agree: "multiplicities_agree p"
    and c: "instruction_at p this = Some c"
    and old: "old \<in> set (successor_slots (derived c))"
    and new: "\<forall>t. new = Some t \<longrightarrow> t < length (instruction_cells p)"
  shows "\<exists>q. rewire_prev p this old new = Some q"
proof -
  have "\<exists>p1. (case old of None \<Rightarrow> Some p | Some target \<Rightarrow> prev_remove p target this) = Some p1"
  proof (cases old)
    case None
    then show ?thesis by simp
  next
    case (Some n)
    with c old have "(this, n) \<in> successor_edges p" by (auto simp: successor_edges_def)
    then have "0 < successor_multiplicity p this n" by (simp add: successor_multiplicity_pos)
    with agree have "0 < prev_multiplicity p n this" by (simp add: multiplicities_agree_def)
    then obtain cn where cn: "instruction_at p n = Some cn" "this \<in> set (prev cn)"
      by (auto simp: prev_multiplicity_pos prev_edges_def)
    from remove_first_occurrence_and_reorder_defined [OF cn(2)] cn(1) Some show ?thesis
      by (auto simp: prev_remove_def)
  qed
  then obtain p1 where
    p1: "(case old of None \<Rightarrow> Some p | Some target \<Rightarrow> prev_remove p target this) = Some p1" ..
  have same: "instruction_at p1 t = None \<longleftrightarrow> instruction_at p t = None" for t
  proof (cases old)
    case None
    with p1 show ?thesis by simp
  next
    case (Some n)
    with p1 have "prev_remove p n this = Some p1" by simp
    from prev_remove_effect(6) [OF this, of t] show ?thesis
      by (metis option.map_disc_iff)
  qed
  have "\<exists>q. (case new of None \<Rightarrow> Some p1 | Some target \<Rightarrow> prev_append p1 target this) = Some q"
  proof (cases new)
    case None
    then show ?thesis by simp
  next
    case (Some t)
    with new have "instruction_at p t \<noteq> None" by (simp add: instruction_at_def)
    with same [of t] obtain ct where "instruction_at p1 t = Some ct" by auto
    with Some show ?thesis by (simp add: prev_append_def)
  qed
  with p1 show ?thesis by (simp add: rewire_prev_def)
qed

lemma rewire_users_defined:
  assumes agree: "multiplicities_agree p"
    and c: "instruction_at p this = Some c"
    and old: "old \<in> set (variable_slots (derived c))"
    and new: "\<forall>t. new = Some t \<longrightarrow> t < length (variable_cells p)"
  shows "\<exists>q. rewire_users p this old new = Some q"
proof -
  have "\<exists>p1. (case old of None \<Rightarrow> Some p | Some target \<Rightarrow> users_remove p target this) = Some p1"
  proof (cases old)
    case None
    then show ?thesis by simp
  next
    case (Some n)
    with c old have "0 < slot_multiplicity p this n" by (auto simp: slot_multiplicity_pos)
    with agree have "0 < users_multiplicity p n this" by (simp add: multiplicities_agree_def)
    then obtain cn where cn: "variable_at p n = Some cn" "this \<in> set (users cn)"
      by (auto simp: users_multiplicity_pos)
    from remove_first_occurrence_and_reorder_defined [OF cn(2)] cn(1) Some show ?thesis
      by (auto simp: users_remove_def)
  qed
  then obtain p1 where
    p1: "(case old of None \<Rightarrow> Some p | Some target \<Rightarrow> users_remove p target this) = Some p1" ..
  have same: "variable_at p1 t = None \<longleftrightarrow> variable_at p t = None" for t
  proof (cases old)
    case None
    with p1 show ?thesis by simp
  next
    case (Some n)
    with p1 have "users_remove p n this = Some p1" by simp
    from variable_at_None_users_remove [OF this] show ?thesis .
  qed
  have "\<exists>q. (case new of None \<Rightarrow> Some p1 | Some target \<Rightarrow> users_append p1 target this) = Some q"
  proof (cases new)
    case None
    then show ?thesis by simp
  next
    case (Some t)
    with new have "variable_at p t \<noteq> None" by (simp add: variable_at_def)
    with same [of t] obtain ct where "variable_at p1 t = Some ct" by auto
    with Some show ?thesis by (simp add: users_append_def)
  qed
  with p1 show ?thesis by (simp add: rewire_users_def)
qed

text \<open>
  On a procedure that satisfies the two invariants every edge mutation completes when
  \<open>this\<close> is an instruction of its class and the new target is null or a cell of the
  procedure (for \<^verbatim>\<open>set_param_variable\<close>: the index is in range and the data types
  agree).
\<close>

lemma successor_setters_complete:
  assumes "multiplicities_agree p"
    and "\<forall>t. instruction = Some t \<longrightarrow> t < length (instruction_cells p)"
  shows "call_instruction_at p this \<noteq> None
           \<Longrightarrow> MFCallInstruction_set_next p this instruction \<noteq> None"
    and "destruct_instruction_at p this \<noteq> None
           \<Longrightarrow> MFDestructInstruction_set_next p this instruction \<noteq> None"
    and "dummy_instruction_at p this \<noteq> None
           \<Longrightarrow> MFDummyInstruction_set_next p this instruction \<noteq> None"
    and "branch_instruction_at p this \<noteq> None
           \<Longrightarrow> MFBranchInstruction_set_branch_true p this instruction \<noteq> None"
    and "branch_instruction_at p this \<noteq> None
           \<Longrightarrow> MFBranchInstruction_set_branch_false p this instruction \<noteq> None"
proof -
  note d = rewire_prev_defined [OF assms(1) _ _ assms(2)]
  show "MFCallInstruction_set_next p this instruction \<noteq> None"
    if "call_instruction_at p this \<noteq> None"
  proof -
    from that obtain fn nxt ps c where c: "call_instruction_at p this = Some (fn, nxt, ps)"
      "instruction_at p this = Some c" "derived c = MFCallInstruction fn nxt ps"
      by (auto simp: call_instruction_at_cell)
    from d [OF c(2), of nxt] c(3) obtain q where "rewire_prev p this nxt instruction = Some q"
      by auto
    with c(1) show ?thesis by (simp add: MFCallInstruction_set_next_def)
  qed
  show "MFDestructInstruction_set_next p this instruction \<noteq> None"
    if "destruct_instruction_at p this \<noteq> None"
  proof -
    from that obtain v nxt c where c: "destruct_instruction_at p this = Some (v, nxt)"
      "instruction_at p this = Some c" "derived c = MFDestructInstruction v nxt"
      by (auto simp: destruct_instruction_at_cell)
    from d [OF c(2), of nxt] c(3) obtain q where "rewire_prev p this nxt instruction = Some q"
      by auto
    with c(1) show ?thesis by (simp add: MFDestructInstruction_set_next_def)
  qed
  show "MFDummyInstruction_set_next p this instruction \<noteq> None"
    if "dummy_instruction_at p this \<noteq> None"
  proof -
    from that obtain nxt c where c: "dummy_instruction_at p this = Some nxt"
      "instruction_at p this = Some c" "derived c = MFDummyInstruction nxt"
      by (auto simp: dummy_instruction_at_cell)
    from d [OF c(2), of nxt] c(3) obtain q where "rewire_prev p this nxt instruction = Some q"
      by auto
    with c(1) show ?thesis by (simp add: MFDummyInstruction_set_next_def)
  qed
  show "MFBranchInstruction_set_branch_true p this instruction \<noteq> None"
    if "branch_instruction_at p this \<noteq> None"
  proof -
    from that obtain v bt bf c where c: "branch_instruction_at p this = Some (v, bt, bf)"
      "instruction_at p this = Some c" "derived c = MFBranchInstruction v bt bf"
      by (auto simp: branch_instruction_at_cell)
    from d [OF c(2), of bt] c(3) obtain q where "rewire_prev p this bt instruction = Some q"
      by auto
    with c(1) show ?thesis by (simp add: MFBranchInstruction_set_branch_true_def)
  qed
  show "MFBranchInstruction_set_branch_false p this instruction \<noteq> None"
    if "branch_instruction_at p this \<noteq> None"
  proof -
    from that obtain v bt bf c where c: "branch_instruction_at p this = Some (v, bt, bf)"
      "instruction_at p this = Some c" "derived c = MFBranchInstruction v bt bf"
      by (auto simp: branch_instruction_at_cell)
    from d [OF c(2), of bf] c(3) obtain q where "rewire_prev p this bf instruction = Some q"
      by auto
    with c(1) show ?thesis by (simp add: MFBranchInstruction_set_branch_false_def)
  qed
qed

lemma variable_setters_complete:
  assumes "multiplicities_agree p"
    and "\<forall>t. variable = Some t \<longrightarrow> t < length (variable_cells p)"
  shows "branch_instruction_at p this \<noteq> None
           \<Longrightarrow> MFBranchInstruction_set_condition p this variable \<noteq> None"
    and "destruct_instruction_at p this \<noteq> None
           \<Longrightarrow> MFDestructInstruction_set_variable p this variable \<noteq> None"
    and "call_instruction_at p this = Some (fn, nxt, ps) \<Longrightarrow> param_index < length ps
           \<Longrightarrow> param_index < param_amount fn
           \<Longrightarrow> \<forall>t. variable = Some t \<longrightarrow>
                 data_type (param_type fn param_index) = var_data_type (variable_cells p ! t)
           \<Longrightarrow> MFCallInstruction_set_param_variable p this param_index variable \<noteq> None"
proof -
  note d = rewire_users_defined [OF assms(1) _ _ assms(2)]
  show "MFBranchInstruction_set_condition p this variable \<noteq> None"
    if "branch_instruction_at p this \<noteq> None"
  proof -
    from that obtain v bt bf c where c: "branch_instruction_at p this = Some (v, bt, bf)"
      "instruction_at p this = Some c" "derived c = MFBranchInstruction v bt bf"
      by (auto simp: branch_instruction_at_cell)
    from d [OF c(2), of v] c(3) obtain q where "rewire_users p this v variable = Some q"
      by auto
    with c(1) show ?thesis by (simp add: MFBranchInstruction_set_condition_def)
  qed
  show "MFDestructInstruction_set_variable p this variable \<noteq> None"
    if "destruct_instruction_at p this \<noteq> None"
  proof -
    from that obtain v nxt c where c: "destruct_instruction_at p this = Some (v, nxt)"
      "instruction_at p this = Some c" "derived c = MFDestructInstruction v nxt"
      by (auto simp: destruct_instruction_at_cell)
    from d [OF c(2), of v] c(3) obtain q where "rewire_users p this v variable = Some q"
      by auto
    with c(1) show ?thesis by (simp add: MFDestructInstruction_set_variable_def)
  qed
  show "MFCallInstruction_set_param_variable p this param_index variable \<noteq> None"
    if "call_instruction_at p this = Some (fn, nxt, ps)" "param_index < length ps"
      "param_index < param_amount fn"
      "\<forall>t. variable = Some t \<longrightarrow>
          data_type (param_type fn param_index) = var_data_type (variable_cells p ! t)"
  proof -
    from that(1) obtain c where c: "instruction_at p this = Some c"
      "derived c = MFCallInstruction fn nxt ps"
      by (auto simp: call_instruction_at_cell)
    from d [OF c(1), of "ps ! param_index"] c(2) that(2)
    obtain q where "rewire_users p this (ps ! param_index) variable = Some q"
      by auto
    with that assms(2) show ?thesis
      by (auto simp: MFCallInstruction_set_param_variable_def variable_at_def
          split: option.splits)
  qed
qed

text \<open>
  \<^verbatim>\<open>set_params\<close> completes as well, when the span has the size of \<^verbatim>\<open>params_\<close> and each
  of its variables is null or a cell of the procedure with the data type of its
  parameter: detaching and attaching \<open>this\<close> changes neither the number of the variables
  nor their data types.
\<close>

lemma rewire_users_variables:
  assumes "rewire_users p this old new = Some p'"
  shows "length (variable_cells p') = length (variable_cells p)"
    and "var_data_type (variable_cells p' ! t) = var_data_type (variable_cells p ! t)"
proof -
  have r: "length (variable_cells q') = length (variable_cells q)
      \<and> var_data_type (variable_cells q' ! t) = var_data_type (variable_cells q ! t)"
    if "users_remove q target this = Some q'" for q q' target
    using that
    by (cases "t = target")
      (auto simp: users_remove_def update_variable_def variable_at_def
        split: option.splits if_splits)
  have a: "length (variable_cells q') = length (variable_cells q)
      \<and> var_data_type (variable_cells q' ! t) = var_data_type (variable_cells q ! t)"
    if "users_append q target this = Some q'" for q q' target
    using that
    by (cases "t = target")
      (auto simp: users_append_def update_variable_def variable_at_def
        split: option.splits if_splits)
  from assms obtain p1 where
    1: "(case old of None \<Rightarrow> Some p | Some target \<Rightarrow> users_remove p target this) = Some p1"
    and 2: "(case new of None \<Rightarrow> Some p1 | Some target \<Rightarrow> users_append p1 target this) = Some p'"
    by (auto simp: rewire_users_def split: option.splits)
  from 1 r have "length (variable_cells p1) = length (variable_cells p)
      \<and> var_data_type (variable_cells p1 ! t) = var_data_type (variable_cells p ! t)"
    by (cases old) auto
  moreover from 2 a have "length (variable_cells p') = length (variable_cells p1)
      \<and> var_data_type (variable_cells p' ! t) = var_data_type (variable_cells p1 ! t)"
    by (cases new) auto
  ultimately show "length (variable_cells p') = length (variable_cells p)"
    and "var_data_type (variable_cells p' ! t) = var_data_type (variable_cells p ! t)"
    by simp_all
qed

lemma set_param_variable_step:
  assumes "MFCallInstruction_set_param_variable p this i v = Some p'"
    and "call_instruction_at p this = Some (fn, nxt, ps)"
  shows "call_instruction_at p' this = Some (fn, nxt, ps[i := v])"
    and "length (variable_cells p') = length (variable_cells p)"
    and "var_data_type (variable_cells p' ! t) = var_data_type (variable_cells p ! t)"
proof -
  from assms obtain q where
    rw: "rewire_users p this (ps ! i) v = Some q"
    and p': "p' = update_instruction q this
               (\<lambda>c. c\<lparr>derived := MFCallInstruction fn nxt (ps[i := v])\<rparr>)"
    by (auto simp: MFCallInstruction_set_param_variable_def split: option.splits if_splits)
  from assms(2) obtain c where c: "instruction_at p this = Some c"
    by (auto simp: call_instruction_at_cell)
  with rewire_users_effect(6) [OF rw, of this] have "instruction_at q this = Some c" by simp
  then show "call_instruction_at p' this = Some (fn, nxt, ps[i := v])"
    by (simp add: p' call_instruction_at_cell instruction_at_update_instruction)
  from rewire_users_variables(1) [OF rw] rewire_users_variables(2) [OF rw, of t]
  show "length (variable_cells p') = length (variable_cells p)"
    and "var_data_type (variable_cells p' ! t) = var_data_type (variable_cells p ! t)"
    by (simp_all add: p' update_instruction_def)
qed

lemma set_params_loop_complete:
  "multiplicities_agree p \<Longrightarrow> call_instruction_at p this = Some (fn, nxt, ps) \<Longrightarrow>
   \<forall>i\<in>set is. i < length ps \<and> i < param_amount fn
      \<and> (\<forall>t. vs ! i = Some t \<longrightarrow> t < length (variable_cells p)
            \<and> data_type (param_type fn i) = var_data_type (variable_cells p ! t)) \<Longrightarrow>
   set_params_loop p this vs is \<noteq> None"
proof (induction "is" arbitrary: p ps)
  case Nil
  show ?case by simp
next
  case (Cons i "is")
  from Cons.prems(3) have i: "i < length ps" "i < param_amount fn"
    "\<forall>t. vs ! i = Some t \<longrightarrow> t < length (variable_cells p)"
    "\<forall>t. vs ! i = Some t \<longrightarrow>
       data_type (param_type fn i) = var_data_type (variable_cells p ! t)"
    by auto
  from variable_setters_complete(3) [OF Cons.prems(1) i(3) Cons.prems(2) i(1,2,4)]
  obtain q where q: "MFCallInstruction_set_param_variable p this i (vs ! i) = Some q"
    by auto
  note step = set_param_variable_step [OF q Cons.prems(2)]
  have "\<forall>j\<in>set is. j < length (ps[i := vs ! i]) \<and> j < param_amount fn
      \<and> (\<forall>t. vs ! j = Some t \<longrightarrow> t < length (variable_cells q)
            \<and> data_type (param_type fn j) = var_data_type (variable_cells q ! t))"
    using Cons.prems(3) by (simp add: step(2,3))
  from Cons.IH [OF set_param_variable_agree [OF Cons.prems(1) q] step(1) this] q
  show ?case by simp
qed

lemma set_params_complete:
  assumes "multiplicities_agree p" and "call_instruction_at p this = Some (fn, nxt, ps)"
    and "length vs = length ps" and "length ps = param_amount fn"
    and "\<forall>i<length vs. \<forall>t. vs ! i = Some t \<longrightarrow> t < length (variable_cells p)
            \<and> data_type (param_type fn i) = var_data_type (variable_cells p ! t)"
  shows "MFCallInstruction_set_params p this vs \<noteq> None"
proof -
  from assms(3,4,5) have "\<forall>i\<in>set [0..<length vs]. i < length ps \<and> i < param_amount fn
      \<and> (\<forall>t. vs ! i = Some t \<longrightarrow> t < length (variable_cells p)
            \<and> data_type (param_type fn i) = var_data_type (variable_cells p ! t))"
    by simp
  from set_params_loop_complete [OF assms(1,2) this] assms(2,3) show ?thesis
    by (simp add: MFCallInstruction_set_params_def)
qed

section \<open>The invariants after every edge mutation\<close>

text \<open>
  C8. On a procedure that satisfies the two invariants, every edge mutation that
  completes (\<^verbatim>\<open>set_next\<close> of a call, destruct or dummy instruction,
  \<^verbatim>\<open>set_branch_true\<close>, \<^verbatim>\<open>set_branch_false\<close>, \<^verbatim>\<open>set_param_variable\<close>, \<^verbatim>\<open>set_params\<close>,
  \<^verbatim>\<open>set_condition\<close>, \<^verbatim>\<open>set_variable\<close>) leaves a procedure that satisfies them: for every
  pair \<open>(I, J)\<close> the multiplicity of \<open>J\<close> among the successor slots of \<open>I\<close> is the
  multiplicity of \<open>I\<close> in the \<^verbatim>\<open>prev_\<close> vector of \<open>J\<close>, and for every \<open>(I, V)\<close> the number
  of slots of \<open>I\<close> that hold \<open>V\<close> is the multiplicity of \<open>I\<close> in the \<^verbatim>\<open>users_\<close> vector
  of \<open>V\<close>. The empty procedure satisfies them and the factory methods keep them, so
  that they hold in every procedure that the builder constructs, after every call.
\<close>

theorem mutations_keep_multiplicities:
  "(built p \<longrightarrow> multiplicities_agree p)
   \<and> (multiplicities_agree p \<longrightarrow>
        (MFCallInstruction_set_next p this instruction = Some p' \<longrightarrow> multiplicities_agree p')
      \<and> (MFDestructInstruction_set_next p this instruction = Some p'
            \<longrightarrow> multiplicities_agree p')
      \<and> (MFDummyInstruction_set_next p this instruction = Some p' \<longrightarrow> multiplicities_agree p')
      \<and> (MFBranchInstruction_set_branch_true p this instruction = Some p'
            \<longrightarrow> multiplicities_agree p')
      \<and> (MFBranchInstruction_set_branch_false p this instruction = Some p'
            \<longrightarrow> multiplicities_agree p')
      \<and> (MFCallInstruction_set_param_variable p this param_index variable = Some p'
            \<longrightarrow> multiplicities_agree p')
      \<and> (MFCallInstruction_set_params p this vs = Some p' \<longrightarrow> multiplicities_agree p')
      \<and> (MFBranchInstruction_set_condition p this variable = Some p'
            \<longrightarrow> multiplicities_agree p')
      \<and> (MFDestructInstruction_set_variable p this variable = Some p'
            \<longrightarrow> multiplicities_agree p'))"
proof (intro conjI impI)
  assume "built p"
  then show "multiplicities_agree p" by (simp add: built_invariants)
next
  assume "multiplicities_agree p" "MFCallInstruction_set_next p this instruction = Some p'"
  then show "multiplicities_agree p'" by (rule call_set_next_agree)
next
  assume "multiplicities_agree p" "MFDestructInstruction_set_next p this instruction = Some p'"
  then show "multiplicities_agree p'" by (rule destruct_set_next_agree)
next
  assume "multiplicities_agree p" "MFDummyInstruction_set_next p this instruction = Some p'"
  then show "multiplicities_agree p'" by (rule dummy_set_next_agree)
next
  assume "multiplicities_agree p"
    "MFBranchInstruction_set_branch_true p this instruction = Some p'"
  then show "multiplicities_agree p'" by (rule set_branch_true_agree)
next
  assume "multiplicities_agree p"
    "MFBranchInstruction_set_branch_false p this instruction = Some p'"
  then show "multiplicities_agree p'" by (rule set_branch_false_agree)
next
  assume "multiplicities_agree p"
    "MFCallInstruction_set_param_variable p this param_index variable = Some p'"
  then show "multiplicities_agree p'" by (rule set_param_variable_agree)
next
  assume "multiplicities_agree p" "MFCallInstruction_set_params p this vs = Some p'"
  then show "multiplicities_agree p'" by (rule set_params_agree)
next
  assume "multiplicities_agree p" "MFBranchInstruction_set_condition p this variable = Some p'"
  then show "multiplicities_agree p'" by (rule set_condition_agree)
next
  assume "multiplicities_agree p" "MFDestructInstruction_set_variable p this variable = Some p'"
  then show "multiplicities_agree p'" by (rule set_variable_agree)
qed

text \<open>
  \<open>loop_procedure\<close> satisfies the invariants. Pointing its call (cell 1) at the return
  instruction (cell 3) instead of the destruct instruction moves the call from one
  \<^verbatim>\<open>prev_\<close> vector to the other; putting \<open>cond\<close> (0) into the slot of the call instead
  of \<open>v\<close> moves the call from one \<^verbatim>\<open>users_\<close> vector to the other. The procedure made by
  the factory methods alone satisfies them as well.
\<close>

theorem mutations_keep_multiplicities_witness:
  "map_option multiplicities_agree (MFCallInstruction_set_next loop_procedure 1 (Some 3))
     = Some True
   \<and> map_option (\<lambda>p'. map prev (instruction_cells p'))
       (MFCallInstruction_set_next loop_procedure 1 (Some 3))
     = Some [[2], [0], [], [0, 1]]
   \<and> map_option multiplicities_agree
       (MFCallInstruction_set_param_variable loop_procedure 1 0 (Some 0))
     = Some True
   \<and> map_option (\<lambda>p'. map users (variable_cells p'))
       (MFCallInstruction_set_param_variable loop_procedure 1 0 (Some 0))
     = Some [[0, 1], [2]]
   \<and> multiplicities_agree (fst (new_return_instruction empty_procedure))"
proof -
  have "edges_consistent loop_procedure" and "users_consistent loop_procedure"
    by code_simp+
  then have a: "multiplicities_agree loop_procedure"
    by (simp add: multiplicities_agree_iff)
  have "MFCallInstruction_set_next loop_procedure 1 (Some 3) \<noteq> None" by code_simp
  then obtain p1 where p1: "MFCallInstruction_set_next loop_procedure 1 (Some 3) = Some p1"
    by auto
  have "MFCallInstruction_set_param_variable loop_procedure 1 0 (Some 0) \<noteq> None"
    by code_simp
  then obtain p2
    where p2: "MFCallInstruction_set_param_variable loop_procedure 1 0 (Some 0) = Some p2"
    by auto
  from mutations_keep_multiplicities [of loop_procedure 1 "Some 3" p1] a p1
  have 1: "map_option multiplicities_agree (MFCallInstruction_set_next loop_procedure 1 (Some 3))
     = Some True" by simp
  from mutations_keep_multiplicities [of loop_procedure 1 _ p2 0 "Some 0"] a p2
  have 2: "map_option multiplicities_agree
       (MFCallInstruction_set_param_variable loop_procedure 1 0 (Some 0)) = Some True" by simp
  have 3: "map_option (\<lambda>p'. map prev (instruction_cells p'))
       (MFCallInstruction_set_next loop_procedure 1 (Some 3))
     = Some [[2], [0], [], [0, 1]]" by code_simp
  have 4: "map_option (\<lambda>p'. map users (variable_cells p'))
       (MFCallInstruction_set_param_variable loop_procedure 1 0 (Some 0))
     = Some [[0, 1], [2]]" by code_simp
  have "built (fst (new_return_instruction empty_procedure))"
    by (intro built.intros)
  with mutations_keep_multiplicities [of "fst (new_return_instruction empty_procedure)"]
  have 5: "multiplicities_agree (fst (new_return_instruction empty_procedure))" by simp
  from 1 2 3 4 5 show ?thesis by blast
qed

end
